theory Spec2Isabelle
  imports Main "HOL-Library.Sublist"
begin

section \<open>The rHEALPix cell algebra of \<^verbatim>\<open>rheal/dggs_classes.py\<close>\<close>

text \<open>
  A shallow embedding of the classes \<^verbatim>\<open>Cell\<close> and \<^verbatim>\<open>CellCollection\<close>.
  Every \<^verbatim>\<open>raise\<close> of the source, and every exception Python itself raises on the
  paths modelled, is a value of the type \<open>error\<close>; a function that can raise returns
  \<open>error + 'a\<close> with \<open>Inl\<close> for the exception.
\<close>

subsection \<open>Exceptions and the parametrisation table\<close>

datatype error =
  ValueError | TypeError | IndexError | KeyError | NotImplementedError | AttributeError

record parametrisation =
  zero_cells :: "string list"
  N_sides :: nat

definition parametrisations :: "string \<rightharpoonup> parametrisation" where
  "parametrisations =
     [''auspix'' \<mapsto> \<lparr>zero_cells = [''N'', ''O'', ''P'', ''Q'', ''R'', ''S''], N_sides = 3\<rparr>]"

subsection \<open>Python primitives used by the module\<close>

text \<open>
  A suid tuple is heterogeneous in Python: a face label (a string) followed by integer
  digits. The model keeps both kinds of element in one list.
\<close>

datatype elt = Label string | Num int

text \<open>\<^verbatim>\<open>int(i)\<close> for a one-character string: a decimal digit, or \<open>None\<close> for ValueError.\<close>

definition int_of_char :: "char \<Rightarrow> int option" where
  "int_of_char c =
     map_of [(CHR ''0'', 0), (CHR ''1'', 1), (CHR ''2'', 2), (CHR ''3'', 3), (CHR ''4'', 4),
             (CHR ''5'', 5), (CHR ''6'', 6), (CHR ''7'', 7), (CHR ''8'', 8), (CHR ''9'', 9)] c"

text \<open>
  \<^verbatim>\<open>int(s)\<close> for the digit strings the ordering step builds; \<open>None\<close> for ValueError.
  CPython (3.11 and later) refuses a string of more than 4300 digits, the default of
  \<^verbatim>\<open>sys.int_max_str_digits\<close>; leading zeros are counted.
\<close>

definition py_int :: "string \<Rightarrow> int option" where
  "py_int s =
     (if s = [] \<or> 4300 < length s then None
      else case those (map int_of_char s) of
             None \<Rightarrow> None
           | Some ds \<Rightarrow> Some (foldl (\<lambda>a d. 10 * a + d) 0 ds))"

text \<open>
  \<^verbatim>\<open>str(n)\<close> for an integer. The module prints only face indices and the digits of
  suids, so the limit above, which \<^verbatim>\<open>str\<close> shares, is never reached here.
\<close>

fun str_nat :: "nat \<Rightarrow> string" where
  "str_nat n =
     (if n < 10 then [''0123456789'' ! n]
      else str_nat (n div 10) @ [''0123456789'' ! (n mod 10)])"

declare str_nat.simps [simp del]

definition str_int :: "int \<Rightarrow> string" where
  "str_int i = (if i < 0 then CHR ''-'' # str_nat (nat (- i)) else str_nat (nat i))"

fun str_elt :: "elt \<Rightarrow> string" where
  "str_elt (Label s) = s"
| "str_elt (Num n) = str_int n"

text \<open>\<^verbatim>\<open>xs.index(x)\<close>: the first position of \<open>x\<close>, or \<open>None\<close> for ValueError.\<close>

fun index_of :: "'a list \<Rightarrow> 'a \<Rightarrow> nat option" where
  "index_of [] x = None"
| "index_of (y # ys) x = (if y = x then Some 0 else map_option Suc (index_of ys x))"

text \<open>\<^verbatim>\<open>xs[i]\<close> for a non-negative index: IndexError out of range.\<close>

definition py_nth :: "'a list \<Rightarrow> nat \<Rightarrow> error + 'a" where
  "py_nth xs i = (if i < length xs then Inr (xs ! i) else Inl IndexError)"

text \<open>A list comprehension whose body can raise: the first exception wins.\<close>

fun emap :: "('a \<Rightarrow> error + 'b) \<Rightarrow> 'a list \<Rightarrow> error + 'b list" where
  "emap f [] = Inr []"
| "emap f (x # xs) =
     (case f x of
        Inl e \<Rightarrow> Inl e
      | Inr y \<Rightarrow> (case emap f xs of Inl e \<Rightarrow> Inl e | Inr ys \<Rightarrow> Inr (y # ys)))"

text \<open>\<^verbatim>\<open>s.split(" ")\<close>: split at every single space, keeping empty pieces.\<close>

fun split_space :: "string \<Rightarrow> string list" where
  "split_space [] = [[]]"
| "split_space (c # cs) =
     (if c = CHR '' '' then [] # split_space cs
      else (case split_space cs of [] \<Rightarrow> [[c]] | w # ws \<Rightarrow> (c # w) # ws))"

text \<open>\<^verbatim>\<open>" ".join(xs)\<close>.\<close>

fun join_space :: "string list \<Rightarrow> string" where
  "join_space [] = []"
| "join_space [x] = x"
| "join_space (x # y # ys) = x @ '' '' @ join_space (y # ys)"

text \<open>\<^verbatim>\<open>max(xs)\<close> and \<^verbatim>\<open>min(xs)\<close>: ValueError on an empty list.\<close>

fun py_max :: "int list \<Rightarrow> error + int" where
  "py_max [] = Inl ValueError"
| "py_max (x # xs) = Inr (fold max xs x)"

fun py_min :: "int list \<Rightarrow> error + int" where
  "py_min [] = Inl ValueError"
| "py_min (x # xs) = Inr (fold min xs x)"

text \<open>
  \<^verbatim>\<open>list(set(xs))\<close> lists the distinct elements of \<open>xs\<close> in the order of the hash
  table, which depends on the hash seed of the process and on the history of the set.
  The model takes that order as a parameter: one enumeration for each element type the
  module builds sets of (suid tuples, suid strings, digit tuples). An enumeration is
  valid when it lists exactly the elements it is given, each once.
\<close>

record set_order =
  tuple_order :: "elt list list \<Rightarrow> elt list list"
  str_order :: "string list \<Rightarrow> string list"
  digits_order :: "int list list \<Rightarrow> int list list"

definition valid_order :: "set_order \<Rightarrow> bool" where
  "valid_order so \<longleftrightarrow>
     (\<forall>xs. set (tuple_order so xs) = set xs \<and> distinct (tuple_order so xs)) \<and>
     (\<forall>xs. set (str_order so xs) = set xs \<and> distinct (str_order so xs)) \<and>
     (\<forall>xs. set (digits_order so xs) = set xs \<and> distinct (digits_order so xs))"

text \<open>
  Two concrete enumerations: the elements in the order given (the last occurrence of
  each), and the same with the longest elements first.
\<close>

definition plain_order :: set_order where
  "plain_order = \<lparr>tuple_order = remdups, str_order = remdups, digits_order = remdups\<rparr>"

definition longest_first :: set_order where
  "longest_first =
     \<lparr>tuple_order = (\<lambda>xs. sort_key (\<lambda>x. - int (length x)) (remdups xs)),
      str_order = (\<lambda>xs. sort_key (\<lambda>x. - int (length x)) (remdups xs)),
      digits_order = (\<lambda>xs. sort_key (\<lambda>x. - int (length x)) (remdups xs))\<rparr>"

subsection \<open>Cell\<close>

record Cell =
  suids :: "elt list"
  crs :: string
  kind :: string
  Nside :: nat
  resolution :: int
  wkt :: string

text \<open>The argument of \<^verbatim>\<open>Cell(suid)\<close>: a string or a tuple.\<close>

datatype suid_arg = FromStr string | FromTuple "elt list"

fun suid_from_str :: "string \<Rightarrow> error + elt list" where
  "suid_from_str [] = Inl IndexError"
| "suid_from_str (c # cs) =
     (case those (map int_of_char cs) of
        None \<Rightarrow> Inl ValueError
      | Some ds \<Rightarrow> Inr (Label [c] # map Num ds))"

fun in_range :: "elt \<Rightarrow> nat \<Rightarrow> bool" where
  "in_range (Label s) n = False"
| "in_range (Num k) n = (0 \<le> k \<and> k < int n)"

definition rhealpix_validator :: "string list \<Rightarrow> nat \<Rightarrow> elt list \<Rightarrow> error + unit" where
  "rhealpix_validator zc n s =
     (case s of
        [] \<Rightarrow> Inl IndexError
      | x # ds \<Rightarrow>
          if x \<notin> set (map Label zc) then Inl ValueError
          else if \<exists>digit \<in> set ds. \<not> in_range digit (n ^ 2) then Inl ValueError
          else Inr ())"

definition Cell_repr :: "elt list \<Rightarrow> string" where
  "Cell_repr s = concat (map str_elt s)"

definition Cell_init :: "suid_arg \<Rightarrow> string \<Rightarrow> string \<Rightarrow> error + Cell" where
  "Cell_init suid knd c =
     (case parametrisations c of
        None \<Rightarrow> Inl KeyError
      | Some p \<Rightarrow>
          (case (case suid of FromStr s \<Rightarrow> suid_from_str s | FromTuple t \<Rightarrow> Inr t) of
             Inl e \<Rightarrow> Inl e
           | Inr t \<Rightarrow>
               if knd \<noteq> ''rHEALPix'' then Inl NotImplementedError
               else (case rhealpix_validator (zero_cells p) (N_sides p) t of
                       Inl e \<Rightarrow> Inl e
                     | Inr _ \<Rightarrow>
                         Inr \<lparr>suids = t, crs = c, kind = knd, Nside = N_sides p,
                              resolution = int (length t) - 1,
                              wkt = ''CELL ('' @ Cell_repr t @ '')''\<rparr>)))"

text \<open>\<^verbatim>\<open>Cell(suid)\<close> with the default kind and crs.\<close>

definition Cell_new :: "suid_arg \<Rightarrow> error + Cell" where
  "Cell_new suid = Cell_init suid ''rHEALPix'' ''auspix''"

datatype direction = Up | Down | Left | Right

text \<open>
  The table \<^verbatim>\<open>n3_atomic_neighbours[3]\<close>: a dictionary from a face label or a digit
  to a dictionary from directions; \<open>None\<close> is a missing key.
\<close>

fun n3_table :: "elt \<Rightarrow> direction \<Rightarrow> elt option" where
  "n3_table (Label s) d =
     (if s = ''O'' then Some (Label (case d of Left \<Rightarrow> ''R'' | Right \<Rightarrow> ''P'' | Down \<Rightarrow> ''S'' | Up \<Rightarrow> ''N''))
      else if s = ''P'' then Some (Label (case d of Left \<Rightarrow> ''O'' | Right \<Rightarrow> ''Q'' | Down \<Rightarrow> ''S'' | Up \<Rightarrow> ''N''))
      else if s = ''Q'' then Some (Label (case d of Left \<Rightarrow> ''P'' | Right \<Rightarrow> ''R'' | Down \<Rightarrow> ''S'' | Up \<Rightarrow> ''N''))
      else if s = ''R'' then Some (Label (case d of Left \<Rightarrow> ''Q'' | Right \<Rightarrow> ''O'' | Down \<Rightarrow> ''S'' | Up \<Rightarrow> ''N''))
      else if s = ''N'' then Some (Label (case d of Down \<Rightarrow> ''O'' | Right \<Rightarrow> ''P'' | Up \<Rightarrow> ''Q'' | Left \<Rightarrow> ''R''))
      else if s = ''S'' then Some (Label (case d of Up \<Rightarrow> ''O'' | Right \<Rightarrow> ''P'' | Down \<Rightarrow> ''Q'' | Left \<Rightarrow> ''R''))
      else None)"
| "n3_table (Num k) d =
     (if k = 0 then Some (Num (case d of Left \<Rightarrow> 2 | Right \<Rightarrow> 1 | Up \<Rightarrow> 6 | Down \<Rightarrow> 3))
      else if k = 1 then Some (Num (case d of Left \<Rightarrow> 0 | Right \<Rightarrow> 2 | Up \<Rightarrow> 7 | Down \<Rightarrow> 4))
      else if k = 2 then Some (Num (case d of Left \<Rightarrow> 1 | Right \<Rightarrow> 0 | Up \<Rightarrow> 8 | Down \<Rightarrow> 5))
      else if k = 3 then Some (Num (case d of Left \<Rightarrow> 5 | Right \<Rightarrow> 4 | Up \<Rightarrow> 0 | Down \<Rightarrow> 6))
      else if k = 4 then Some (Num (case d of Left \<Rightarrow> 3 | Right \<Rightarrow> 5 | Up \<Rightarrow> 1 | Down \<Rightarrow> 7))
      else if k = 5 then Some (Num (case d of Left \<Rightarrow> 4 | Right \<Rightarrow> 3 | Up \<Rightarrow> 2 | Down \<Rightarrow> 8))
      else if k = 6 then Some (Num (case d of Left \<Rightarrow> 8 | Right \<Rightarrow> 7 | Up \<Rightarrow> 3 | Down \<Rightarrow> 0))
      else if k = 7 then Some (Num (case d of Left \<Rightarrow> 6 | Right \<Rightarrow> 8 | Up \<Rightarrow> 4 | Down \<Rightarrow> 1))
      else if k = 8 then Some (Num (case d of Left \<Rightarrow> 7 | Right \<Rightarrow> 6 | Up \<Rightarrow> 5 | Down \<Rightarrow> 2))
      else None)"

definition n3_atomic_neighbours :: "nat \<rightharpoonup> (elt \<Rightarrow> direction \<Rightarrow> elt option)" where
  "n3_atomic_neighbours = [3 \<mapsto> n3_table]"

definition atomic_neighbours :: "Cell \<Rightarrow> error + (elt \<Rightarrow> direction \<Rightarrow> elt option)" where
  "atomic_neighbours c =
     (case parametrisations (crs c) of
        None \<Rightarrow> Inl KeyError
      | Some p \<Rightarrow>
          (case n3_atomic_neighbours (N_sides p) of
             None \<Rightarrow> Inl KeyError
           | Some an \<Rightarrow> Inr an))"

text \<open>
  The dictionary \<^verbatim>\<open>border\<close> of \<^verbatim>\<open>neighbour\<close>: the digits on each edge of the
  \<open>N \<times> N\<close> grid of children.
\<close>

definition border_digits :: "nat \<Rightarrow> direction \<Rightarrow> int list" where
  "border_digits n d =
     (case d of
        Left \<Rightarrow> map (\<lambda>i. int i * int n) [0..<n]
      | Right \<Rightarrow> map (\<lambda>i. (int i + 1) * int n - 1) [0..<n]
      | Up \<Rightarrow> map int [0..<n]
      | Down \<Rightarrow> map (\<lambda>i. (int n - 1) * int n + int i) [0..<n])"

fun in_border :: "nat \<Rightarrow> direction \<Rightarrow> elt \<Rightarrow> bool" where
  "in_border n d (Label s) = False"
| "in_border n d (Num k) = (k \<in> set (border_digits n d))"

text \<open>
  The scan of \<^verbatim>\<open>neighbour\<close> from the last element of the suid to the first. The
  list argument is the reversed suid, the flag is \<^verbatim>\<open>crossed_all_borders\<close>, and the
  result is \<^verbatim>\<open>neighbour_suid\<close> before it is reversed.
\<close>

fun neighbour_scan ::
  "(elt \<Rightarrow> direction \<Rightarrow> elt option) \<Rightarrow> nat \<Rightarrow> direction \<Rightarrow> bool \<Rightarrow> elt list \<Rightarrow> error + elt list"
where
  "neighbour_scan an n d crossed [] = Inr []"
| "neighbour_scan an n d crossed (x # xs) =
     (if crossed then
        (case neighbour_scan an n d True xs of Inl e \<Rightarrow> Inl e | Inr r \<Rightarrow> Inr (x # r))
      else
        (case an x d of
           None \<Rightarrow> Inl KeyError
         | Some y \<Rightarrow>
             (case neighbour_scan an n d (\<not> in_border n d x) xs of
                Inl e \<Rightarrow> Inl e
              | Inr r \<Rightarrow> Inr (y # r))))"

text \<open>
  \<^verbatim>\<open>child_order\<close> restricted to its coordinate keys, the only ones
  \<^verbatim>\<open>rotate_entry\<close> reads: \<^verbatim>\<open>A[(row, col)] = row * N + col\<close>.
\<close>

definition child_order :: "nat \<Rightarrow> nat \<times> nat \<Rightarrow> nat" where
  "child_order n rc = fst rc * n + snd rc"

text \<open>
  The dictionary \<^verbatim>\<open>f\<close> of \<^verbatim>\<open>rotate_entry\<close> as the list of its items (the keys are
  pairwise distinct): one quarter turn anticlockwise on digits, the identity on labels.
\<close>

definition rotate_items :: "nat \<Rightarrow> string list \<Rightarrow> (elt \<times> elt) list" where
  "rotate_items n zc =
     concat (map (\<lambda>i. map (\<lambda>j. (Num (int (child_order n (i, j))),
                                  Num (int (child_order n (j, n - 1 - i))))) [0..<n]) [0..<n])
     @ map (\<lambda>c. (Label c, Label c)) zc"

definition dict_get :: "('k \<times> 'v) list \<Rightarrow> 'k \<Rightarrow> error + 'v" where
  "dict_get m k = (case map_of m k of None \<Rightarrow> Inl KeyError | Some v \<Rightarrow> Inr v)"

definition rotate_entry :: "Cell \<Rightarrow> elt \<Rightarrow> nat \<Rightarrow> error + elt" where
  "rotate_entry c x quarter_turns =
     (case parametrisations (crs c) of
        None \<Rightarrow> Inl KeyError
      | Some p \<Rightarrow>
          (let f = rotate_items (Nside c) (zero_cells p); q = quarter_turns mod 4 in
           if q = 1 then dict_get f x
           else if q = 2 then
             (case dict_get f x of Inl e \<Rightarrow> Inl e | Inr y \<Rightarrow> dict_get f y)
           else if q = 3 then
             (case dict_get f x of
                Inl e \<Rightarrow> Inl e
              | Inr y \<Rightarrow> (case dict_get f y of Inl e \<Rightarrow> Inl e | Inr z \<Rightarrow> dict_get f z))
           else Inr x))"

definition rotate :: "Cell \<Rightarrow> elt list \<Rightarrow> nat \<Rightarrow> error + elt list" where
  "rotate c suid quarter_turns = emap (\<lambda>x. rotate_entry c x quarter_turns) suid"

text \<open>
  The three conditions of \<^verbatim>\<open>neighbour\<close> that select a rotation, as the number of
  quarter turns (0 when none applies). Python evaluates \<^verbatim>\<open>an[self0]\<close> only after
  \<^verbatim>\<open>self0\<close> was found equal to a polar label, so no lookup here can fail; the two
  polar labels are \<^verbatim>\<open>zero_cells[5]\<close> and \<^verbatim>\<open>zero_cells[0]\<close> of a table of six.
\<close>

definition quarter_turns_for ::
  "(elt \<Rightarrow> direction \<Rightarrow> elt option) \<Rightarrow> string list \<Rightarrow> elt \<Rightarrow> elt \<Rightarrow> nat" where
  "quarter_turns_for an zc self0 neighbour0 =
     (let south = Label (zc ! 5); north = Label (zc ! 0) in
      if (self0 = south \<and> Some neighbour0 = an self0 Left)
         \<or> (Some self0 = an south Right \<and> neighbour0 = south)
         \<or> (self0 = north \<and> Some neighbour0 = an self0 Right)
         \<or> (Some self0 = an north Left \<and> neighbour0 = north) then 1
      else if (self0 = south \<and> Some neighbour0 = an self0 Down)
         \<or> (Some self0 = an south Down \<and> neighbour0 = south)
         \<or> (self0 = north \<and> Some neighbour0 = an self0 Up)
         \<or> (Some self0 = an north Up \<and> neighbour0 = north) then 2
      else if (self0 = south \<and> Some neighbour0 = an self0 Right)
         \<or> (Some self0 = an south Left \<and> neighbour0 = south)
         \<or> (self0 = north \<and> Some neighbour0 = an self0 Left)
         \<or> (Some self0 = an north Right \<and> neighbour0 = north) then 3
      else 0)"

definition Cell_neighbour :: "Cell \<Rightarrow> direction \<Rightarrow> error + Cell" where
  "Cell_neighbour c d =
     (case atomic_neighbours c of
        Inl e \<Rightarrow> Inl e
      | Inr an \<Rightarrow>
          (case parametrisations (crs c) of
             None \<Rightarrow> Inl KeyError
           | Some p \<Rightarrow>
               (case neighbour_scan an (Nside c) d False (rev (suids c)) of
                  Inl e \<Rightarrow> Inl e
                | Inr r \<Rightarrow>
                    (let neighbour_suid = rev r in
                     case (suids c, neighbour_suid) of
                       (self0 # _, neighbour0 # _) \<Rightarrow>
                         (let q = quarter_turns_for an (zero_cells p) self0 neighbour0 in
                          case (if q = 0 then Inr neighbour_suid else rotate c neighbour_suid q) of
                            Inl e \<Rightarrow> Inl e
                          | Inr nb \<Rightarrow> Cell_new (FromTuple nb))
                     | _ \<Rightarrow> Inl IndexError))))"

definition Cell_overlaps :: "Cell \<Rightarrow> Cell \<Rightarrow> bool" where
  "Cell_overlaps a b = list_all (\<lambda>(i, j). i = j) (zip (suids a) (suids b))"

subsection \<open>CellCollection\<close>

text \<open>
  The attribute \<^verbatim>\<open>cells\<close> is \<open>None\<close> for Python's \<^verbatim>\<open>None\<close> and a list
  otherwise; an empty string held by the empty collection iterates like the empty list
  and is modelled by it. After construction \<^verbatim>\<open>suids\<close> holds suid strings.
\<close>

record CellCollection =
  cells :: "Cell list option"
  cc_crs :: "string option"
  cc_kind :: "string option"
  cc_suids :: "string list"
  max_resolution :: "int option"
  min_resolution :: "int option"
  cc_wkt :: "string option"

text \<open>
  What \<^verbatim>\<open>CellCollection(cells)\<close> can be given: nothing, a string, a list of strings,
  a Cell, a list of Cells, or an object of another (truthy) type. Lists that mix strings
  and Cells are outside the model.
\<close>

datatype cells_arg =
  NoCells | SuidString string | SuidList "string list" | OneCell Cell | CellList "Cell list"
  | Unsupported

text \<open>An operand of \<^verbatim>\<open>+\<close> and \<^verbatim>\<open>-\<close>, and the result of \<^verbatim>\<open>children\<close> and \<^verbatim>\<open>border\<close>.\<close>

datatype operand = ACell Cell | ACollection CellCollection

text \<open>
  \<^verbatim>\<open>empty\<close>: whether \<^verbatim>\<open>not self.cells\<close> holds, and then the attributes it sets.
\<close>

fun empty_cells :: "cells_arg \<Rightarrow> Cell list option option" where
  "empty_cells NoCells = Some None"
| "empty_cells (SuidString s) = (if s = [] then Some (Some []) else None)"
| "empty_cells (SuidList xs) = (if xs = [] then Some (Some []) else None)"
| "empty_cells (CellList cs) = (if cs = [] then Some (Some []) else None)"
| "empty_cells (OneCell c) = None"
| "empty_cells Unsupported = None"

definition empty_collection :: "Cell list option \<Rightarrow> CellCollection" where
  "empty_collection cs =
     \<lparr>cells = cs, cc_crs = None, cc_kind = None, cc_suids = [],
      max_resolution = None, min_resolution = None, cc_wkt = None\<rparr>"

definition CellCollection_repr :: "CellCollection \<Rightarrow> string" where
  "CellCollection_repr s =
     (if cc_suids s \<noteq> [] then join_space (cc_suids s) else ''Empty CellCollection'')"

definition CellCollection_len :: "CellCollection \<Rightarrow> nat" where
  "CellCollection_len s = length (cc_suids s)"

fun operand_repr :: "operand \<Rightarrow> string" where
  "operand_repr (ACell c) = Cell_repr (suids c)"
| "operand_repr (ACollection s) = CellCollection_repr s"

definition CellCollection_eq :: "CellCollection \<Rightarrow> operand \<Rightarrow> bool" where
  "CellCollection_eq s other = (CellCollection_repr s = operand_repr other)"

fun standardise_input :: "cells_arg \<Rightarrow> error + Cell list" where
  "standardise_input Unsupported = Inl TypeError"
| "standardise_input NoCells = Inl TypeError"
| "standardise_input (SuidString s) = emap (\<lambda>suid. Cell_new (FromStr suid)) (split_space s)"
| "standardise_input (OneCell c) = Inr [c]"
| "standardise_input (SuidList xs) =
     (if length xs = 0 then Inl ValueError
      else emap (\<lambda>cell_str. Cell_new (FromStr cell_str)) xs)"
| "standardise_input (CellList cs) = (if length cs = 0 then Inl ValueError else Inr cs)"

fun validate :: "string \<Rightarrow> string \<Rightarrow> Cell list \<Rightarrow> error + unit" where
  "validate c k [] = Inr ()"
| "validate c k (cell # rest) =
     (if \<not> crs cell = c then Inl ValueError
      else if \<not> kind cell = k then Inl ValueError
      else validate c k rest)"

text \<open>\<^verbatim>\<open>upper_cells.setdefault(key, []).append(cell)\<close> on a dictionary kept in insertion order.\<close>

fun setdefault_append ::
  "('k \<times> 'v list) list \<Rightarrow> 'k \<Rightarrow> 'v \<Rightarrow> ('k \<times> 'v list) list" where
  "setdefault_append [] k v = [(k, [v])]"
| "setdefault_append ((k', vs) # m) k v =
     (if k' = k then (k', vs @ [v]) # m else (k', vs) # setdefault_append m k v)"

definition rhealpix_compress :: "elt list list \<Rightarrow> elt list list" where
  "rhealpix_compress ss =
     (let upper_cells = fold (\<lambda>cell m. setdefault_append m (butlast cell) cell) ss []
      in concat (map (\<lambda>(k, v). if length v = 9 then [k] else v) upper_cells))"

definition compress :: "string \<Rightarrow> elt list list \<Rightarrow> error + elt list list" where
  "compress k ss = (if k = ''rHEALPix'' then Inr (rhealpix_compress ss) else Inl NotImplementedError)"

definition deduplicate :: "set_order \<Rightarrow> elt list list \<Rightarrow> elt list list" where
  "deduplicate so ss = tuple_order so ss"

text \<open>
  \<^verbatim>\<open>absorb\<close>: the outer loop runs over the list as it was on entry; the inner loop
  (\<open>absorb_one\<close>) tests each ancestor against the current list, and every hit rebuilds
  the list from a set.
\<close>

definition absorb_one :: "set_order \<Rightarrow> elt list \<Rightarrow> elt list list \<Rightarrow> elt list list" where
  "absorb_one so suid cur =
     fold (\<lambda>i cur'.
             if take (i + 1) suid \<in> set cur' then tuple_order so (removeAll suid cur')
             else cur')
          [0..<length suid - 1] cur"

definition absorb :: "set_order \<Rightarrow> elt list list \<Rightarrow> elt list list" where
  "absorb so ss = fold (absorb_one so) ss ss"

text \<open>
  \<^verbatim>\<open>_rhealpix_order\<close>: the face label becomes its index in \<^verbatim>\<open>zero_cells\<close>, the
  digits follow, the strings are sorted (stably) by their integer value, and the first
  character is turned back into a label.
\<close>

definition order_num :: "string list \<Rightarrow> elt list \<Rightarrow> error + string" where
  "order_num zc x =
     (case x of
        [] \<Rightarrow> Inl IndexError
      | x0 # xs \<Rightarrow>
          (case index_of (map Label zc) x0 of
             None \<Rightarrow> Inl ValueError
           | Some k \<Rightarrow> Inr (str_int (int k) @ concat (map str_elt xs))))"

definition order_back :: "string list \<Rightarrow> string \<Rightarrow> error + string" where
  "order_back zc x =
     (case x of
        [] \<Rightarrow> Inl IndexError
      | x0 # xs \<Rightarrow>
          (case int_of_char x0 of
             None \<Rightarrow> Inl ValueError
           | Some k \<Rightarrow> (case py_nth zc (nat k) of Inl e \<Rightarrow> Inl e | Inr l \<Rightarrow> Inr (l @ xs))))"

definition rhealpix_order :: "string \<Rightarrow> elt list list \<Rightarrow> error + string list" where
  "rhealpix_order c ss =
     (case parametrisations c of
        None \<Rightarrow> Inl KeyError
      | Some p \<Rightarrow>
          (case emap (order_num (zero_cells p)) ss of
             Inl e \<Rightarrow> Inl e
           | Inr nums \<Rightarrow>
               (case those (map py_int nums) of
                  None \<Rightarrow> Inl ValueError
                | Some keys \<Rightarrow>
                    emap (order_back (zero_cells p)) (map snd (sort_key fst (zip keys nums))))))"

definition order :: "string \<Rightarrow> string \<Rightarrow> elt list list \<Rightarrow> error + string list" where
  "order k c ss = (if k = ''rHEALPix'' then rhealpix_order c ss else Inl NotImplementedError)"

text \<open>\<^verbatim>\<open>crs if crs else self.cells[0].crs\<close>: \<^verbatim>\<open>None\<close> and the empty string are false.\<close>

definition or_else :: "string option \<Rightarrow> string \<Rightarrow> string" where
  "or_else given dflt = (case given of None \<Rightarrow> dflt | Some s \<Rightarrow> if s = [] then dflt else s)"

definition CellCollection_init ::
  "set_order \<Rightarrow> cells_arg \<Rightarrow> string option \<Rightarrow> string option \<Rightarrow> bool \<Rightarrow> error + CellCollection"
where
  "CellCollection_init so arg crs_arg kind_arg compress_arg =
     (case empty_cells arg of
        Some cs \<Rightarrow> Inr (empty_collection cs)
      | None \<Rightarrow>
     (case standardise_input arg of
        Inl e \<Rightarrow> Inl e
      | Inr [] \<Rightarrow> Inl IndexError
      | Inr (cell0 # rest) \<Rightarrow>
     (let c = or_else crs_arg (crs cell0);
          k = or_else kind_arg (kind cell0);
          ss0 = map suids (cell0 # rest)
      in
     (case validate c k (cell0 # rest) of
        Inl e \<Rightarrow> Inl e
      | Inr _ \<Rightarrow>
     (case (if compress_arg then compress k ss0 else Inr ss0) of
        Inl e \<Rightarrow> Inl e
      | Inr ss1 \<Rightarrow>
     (case order k c (absorb so (deduplicate so ss1)) of
        Inl e \<Rightarrow> Inl e
      | Inr strs \<Rightarrow>
     (case emap (\<lambda>suid. Cell_new (FromStr suid)) strs of
        Inl e \<Rightarrow> Inl e
      | Inr cs \<Rightarrow>
     (case py_max (map resolution cs) of
        Inl e \<Rightarrow> Inl e
      | Inr mx \<Rightarrow>
     (case py_min (map resolution cs) of
        Inl e \<Rightarrow> Inl e
      | Inr mn \<Rightarrow>
          Inr \<lparr>cells = Some cs, cc_crs = Some c, cc_kind = Some k, cc_suids = strs,
               max_resolution = Some mx, min_resolution = Some mn,
               cc_wkt = Some (''CELLLIST (('' @ join_space strs @ ''))'')\<rparr>)))))))))"

text \<open>\<^verbatim>\<open>CellCollection(cells)\<close> with the default crs, kind and compression.\<close>

definition CellCollection_new :: "set_order \<Rightarrow> cells_arg \<Rightarrow> error + CellCollection" where
  "CellCollection_new so arg = CellCollection_init so arg None None True"

fun validate_other :: "set_order \<Rightarrow> operand \<Rightarrow> error + CellCollection" where
  "validate_other so (ACell c) = CellCollection_new so (OneCell c)"
| "validate_other so (ACollection s) = Inr s"

text \<open>\<^verbatim>\<open>_matches\<close>: the truth value of \<^verbatim>\<open>self.crs and self.kind\<close> and of the other's.\<close>

definition truthy :: "string option \<Rightarrow> bool" where
  "truthy s = (case s of None \<Rightarrow> False | Some v \<Rightarrow> v \<noteq> [])"

fun operand_crs :: "operand \<Rightarrow> string option" where
  "operand_crs (ACell c) = Some (crs c)"
| "operand_crs (ACollection s) = cc_crs s"

fun operand_kind :: "operand \<Rightarrow> string option" where
  "operand_kind (ACell c) = Some (kind c)"
| "operand_kind (ACollection s) = cc_kind s"

definition matches :: "CellCollection \<Rightarrow> operand \<Rightarrow> error + unit" where
  "matches s other =
     (if (\<not> (truthy (cc_crs s) \<and> truthy (cc_kind s)))
         \<or> (\<not> (truthy (operand_crs other) \<and> truthy (operand_kind other))) then Inr ()
      else if cc_crs s = operand_crs other \<and> cc_kind s = operand_kind other then Inr ()
      else Inl ValueError)"

definition CellCollection_add ::
  "set_order \<Rightarrow> CellCollection \<Rightarrow> operand \<Rightarrow> bool \<Rightarrow> error + CellCollection" where
  "CellCollection_add so s other compress_arg =
     (case matches s other of
        Inl e \<Rightarrow> Inl e
      | Inr _ \<Rightarrow>
          (case validate_other so other of
             Inl e \<Rightarrow> Inl e
           | Inr other' \<Rightarrow>
               CellCollection_init so (SuidList (str_order so (cc_suids s @ cc_suids other')))
                 None None compress_arg))"

subsection \<open>Children, border and neighbours of a Cell\<close>

text \<open>
  \<^verbatim>\<open>itertools.product(xs, repeat=k)\<close> is \<open>product_lists (replicate k xs)\<close>: the last
  position varies fastest. A negative \<^verbatim>\<open>repeat\<close> raises ValueError.
\<close>

definition Cell_children :: "set_order \<Rightarrow> Cell \<Rightarrow> int option \<Rightarrow> error + operand" where
  "Cell_children so c res =
     (let resolution_delta = (case res of None \<Rightarrow> 1 | Some r \<Rightarrow> r - resolution c) in
      if resolution_delta = 0 then Inr (ACell c)
      else if resolution_delta < 0 then Inl ValueError
      else
        (let children_tuples =
               map (\<lambda>i. Cell_repr (suids c) @ concat (map str_int i))
                 (product_lists (replicate (nat resolution_delta) (map int [0..<Nside c ^ 2])))
         in map_sum id ACollection
              (CellCollection_init so (SuidList children_tuples) None None False)))"

definition Cell_border :: "set_order \<Rightarrow> Cell \<Rightarrow> int option \<Rightarrow> error + operand" where
  "Cell_border so c res =
     (case res of
        None \<Rightarrow> Inr (ACell c)
      | Some r \<Rightarrow>
          (let resolution_delta = r - resolution c in
           if resolution_delta < 0 then Inl ValueError
           else
             (let k = nat resolution_delta;
                  left_edge = product_lists (replicate k [0, 3, 6]);
                  right_edge = product_lists (replicate k [2, 5, 8]);
                  top_edge = product_lists (replicate k [0, 1, 2]);
                  bottom_edge = product_lists (replicate k [6, 7, 8]);
                  all_edges =
                    digits_order so
                      (concat (map (\<lambda>(l, r, t, b). [l, r, t, b])
                                 (zip left_edge (zip right_edge (zip top_edge bottom_edge)))))
              in map_sum id ACollection
                   (CellCollection_new so
                      (SuidList (map (\<lambda>i. Cell_repr (suids c) @ concat (map str_int i)) all_edges))))))"

definition Cell_neighbours :: "set_order \<Rightarrow> Cell \<Rightarrow> bool \<Rightarrow> error + CellCollection" where
  "Cell_neighbours so c include_diagonals =
     (case emap (Cell_neighbour c) [Up, Down, Left, Right] of
        Inl e \<Rightarrow> Inl e
      | Inr cardinal \<Rightarrow>
          (case (if include_diagonals \<and> resolution c > 0 then
                   emap (\<lambda>(d1, d2). case Cell_neighbour c d1 of
                                       Inl e \<Rightarrow> Inl e
                                     | Inr n1 \<Rightarrow> Cell_neighbour n1 d2)
                     [(Left, Up), (Left, Down), (Right, Up), (Right, Down)]
                 else Inr []) of
             Inl e \<Rightarrow> Inl e
           | Inr diagonal \<Rightarrow> CellCollection_new so (CellList (cardinal @ diagonal))))"

subsection \<open>Difference\<close>

text \<open>
  The two module-level lists \<^verbatim>\<open>cells_to_retain\<close> and \<^verbatim>\<open>cells_to_remove\<close> are the
  state of \<^verbatim>\<open>progressively_intersect\<close>. The recursion descends through the children of
  the left cell; its depth is bounded by a fuel argument, and \<open>None\<close> means the fuel
  ran out.
\<close>

record accumulators =
  cells_to_retain :: "elt list list"
  cells_to_remove :: "elt list list"

text \<open>A \<^verbatim>\<open>for\<close> loop over a list whose body updates a state and may raise.\<close>

fun for_each :: "('a \<Rightarrow> 's \<Rightarrow> (error + 's) option) \<Rightarrow> 'a list \<Rightarrow> 's \<Rightarrow> (error + 's) option" where
  "for_each body [] s = Some (Inr s)"
| "for_each body (x # xs) s =
     (case body x s of
        None \<Rightarrow> None
      | Some (Inl e) \<Rightarrow> Some (Inl e)
      | Some (Inr s') \<Rightarrow> for_each body xs s')"

text \<open>\<^verbatim>\<open>x.cells\<close> of what \<^verbatim>\<open>children\<close> returned, ready to be iterated.\<close>

fun cells_of :: "operand \<Rightarrow> error + Cell list" where
  "cells_of (ACell c) = Inl AttributeError"
| "cells_of (ACollection s) = (case cells s of None \<Rightarrow> Inl TypeError | Some cs \<Rightarrow> Inr cs)"

definition intersect_pair ::
  "(Cell list \<Rightarrow> Cell list \<Rightarrow> accumulators \<Rightarrow> (error + accumulators) option) \<Rightarrow>
   set_order \<Rightarrow> Cell \<Rightarrow> Cell \<Rightarrow> accumulators \<Rightarrow> (error + accumulators) option" where
  "intersect_pair recurse so cell_one cell_two acc =
     (if Cell_overlaps cell_one cell_two then
        (if resolution cell_one \<ge> resolution cell_two then
           Some (Inr (acc\<lparr>cells_to_remove := cells_to_remove acc @ [suids cell_one]\<rparr>))
         else
           (case Cell_children so cell_one None of
              Inl e \<Rightarrow> Some (Inl e)
            | Inr ch \<Rightarrow>
                (case cells_of ch of
                   Inl e \<Rightarrow> Some (Inl e)
                 | Inr children \<Rightarrow> recurse children [cell_two] acc)))
      else Some (Inr (acc\<lparr>cells_to_retain := cells_to_retain acc @ [suids cell_one]\<rparr>)))"

primrec progressively_intersect ::
  "nat \<Rightarrow> set_order \<Rightarrow> Cell list \<Rightarrow> Cell list \<Rightarrow> accumulators \<Rightarrow> (error + accumulators) option"
where
  "progressively_intersect 0 so cells_one cells_two acc = None"
| "progressively_intersect (Suc fuel) so cells_one cells_two acc =
     for_each (\<lambda>cell_one.
                 for_each (\<lambda>cell_two.
                             intersect_pair (progressively_intersect fuel so) so cell_one cell_two)
                          cells_two)
              cells_one acc"

text \<open>
  \<^verbatim>\<open>__sub__\<close>. Iterating \<^verbatim>\<open>self.cells\<close> raises TypeError when it is \<^verbatim>\<open>None\<close>;
  \<^verbatim>\<open>other.cells\<close> is iterated only once the outer loop has a cell.
\<close>

definition CellCollection_sub ::
  "nat \<Rightarrow> set_order \<Rightarrow> CellCollection \<Rightarrow> operand \<Rightarrow> bool \<Rightarrow> (error + CellCollection) option"
where
  "CellCollection_sub fuel so s other compress_arg =
     (case validate_other so other of
        Inl e \<Rightarrow> Some (Inl e)
      | Inr other' \<Rightarrow>
          (case (case cells s of
                   None \<Rightarrow> Some (Inl TypeError)
                 | Some [] \<Rightarrow> Some (Inr \<lparr>cells_to_retain = [], cells_to_remove = []\<rparr>)
                 | Some cells_one \<Rightarrow>
                     (case cells other' of
                        None \<Rightarrow> Some (Inl TypeError)
                      | Some cells_two \<Rightarrow>
                          progressively_intersect fuel so cells_one cells_two
                            \<lparr>cells_to_retain = [], cells_to_remove = []\<rparr>)) of
             None \<Rightarrow> None
           | Some (Inl e) \<Rightarrow> Some (Inl e)
           | Some (Inr acc) \<Rightarrow>
               (let overall =
                      tuple_order so
                        (filter (\<lambda>t. t \<notin> set (cells_to_remove acc)) (cells_to_retain acc))
                in case emap (\<lambda>cell. Cell_new (FromTuple cell)) overall of
                     Inl e \<Rightarrow> Some (Inl e)
                   | Inr cs \<Rightarrow> Some (CellCollection_init so (CellList cs) None None compress_arg))))"

subsection \<open>Neighbours of a CellCollection\<close>

text \<open>
  \<^verbatim>\<open>neighbours(resolution)\<close>. \<^verbatim>\<open>not resolution\<close> holds for \<^verbatim>\<open>None\<close> and for 0;
  comparing an integer with the \<^verbatim>\<open>None\<close> that an empty collection has for
  \<^verbatim>\<open>max_resolution\<close> raises TypeError. The method calls itself on the border of a
  coarser member, so it takes fuel like the difference it ends with.
\<close>

definition effective_resolution :: "CellCollection \<Rightarrow> int option \<Rightarrow> error + int option" where
  "effective_resolution s res =
     (if res = None \<or> res = Some 0 then Inr (max_resolution s)
      else (case (res, max_resolution s) of
              (Some r, Some m) \<Rightarrow> if r < m then Inl ValueError else Inr (Some r)
            | _ \<Rightarrow> Inl TypeError))"

text \<open>\<^verbatim>\<open>cell.resolution < resolution\<close>, where \<^verbatim>\<open>resolution\<close> may be \<^verbatim>\<open>None\<close>.\<close>

definition coarser_than :: "Cell \<Rightarrow> int option \<Rightarrow> error + bool" where
  "coarser_than cell res = (case res of None \<Rightarrow> Inl TypeError | Some r \<Rightarrow> Inr (resolution cell < r))"

definition add_to ::
  "set_order \<Rightarrow> (error + CellCollection) option \<Rightarrow> CellCollection \<Rightarrow> (error + CellCollection) option"
where
  "add_to so found all_neighbours =
     (case found of
        None \<Rightarrow> None
      | Some (Inl e) \<Rightarrow> Some (Inl e)
      | Some (Inr nb) \<Rightarrow> Some (CellCollection_add so all_neighbours (ACollection nb) True))"

primrec CellCollection_neighbours ::
  "nat \<Rightarrow> set_order \<Rightarrow> CellCollection \<Rightarrow> int option \<Rightarrow> (error + CellCollection) option"
where
  "CellCollection_neighbours 0 so s res = None"
| "CellCollection_neighbours (Suc fuel) so s res =
     (case effective_resolution s res of
        Inl e \<Rightarrow> Some (Inl e)
      | Inr res' \<Rightarrow>
          (case cells s of
             None \<Rightarrow> Some (Inl TypeError)
           | Some cs \<Rightarrow>
               (case for_each
                       (\<lambda>cell all_neighbours.
                          case coarser_than cell res' of
                            Inl e \<Rightarrow> Some (Inl e)
                          | Inr True \<Rightarrow>
                              (case Cell_border so cell res' of
                                 Inl e \<Rightarrow> Some (Inl e)
                               | Inr (ACell b) \<Rightarrow>
                                   add_to so (Some (Cell_neighbours so b True)) all_neighbours
                               | Inr (ACollection b) \<Rightarrow>
                                   add_to so (CellCollection_neighbours fuel so b None) all_neighbours)
                          | Inr False \<Rightarrow>
                              add_to so (Some (Cell_neighbours so cell True)) all_neighbours)
                       cs (empty_collection None) of
                  None \<Rightarrow> None
                | Some (Inl e) \<Rightarrow> Some (Inl e)
                | Some (Inr all_neighbours) \<Rightarrow>
                    CellCollection_sub (Suc fuel) so all_neighbours (ACollection s) True)))"

subsection \<open>Notions used to state the properties\<close>

text \<open>
  The opposite direction, as the specification words it: up and down are swapped, and so
  are left and right.
\<close>

fun opposite :: "direction \<Rightarrow> direction" where
  "opposite Up = Down"
| "opposite Down = Up"
| "opposite Left = Right"
| "opposite Right = Left"

text \<open>
  The shape of a suid that passes \<^verbatim>\<open>_rhealpix_validator\<close> for the one parametrisation:
  a face label of the table followed by digits from 0 to 8; and the Cell that
  \<^verbatim>\<open>Cell.__init__\<close> builds around such a suid.
\<close>

definition face_ok :: "string \<Rightarrow> bool" where
  "face_ok l \<longleftrightarrow> l \<in> set [''N'', ''O'', ''P'', ''Q'', ''R'', ''S'']"

definition digits_ok :: "int list \<Rightarrow> bool" where
  "digits_ok ds \<longleftrightarrow> list_all (\<lambda>d. 0 \<le> d \<and> d < 9) ds"

definition cell_of :: "elt list \<Rightarrow> Cell" where
  "cell_of t =
     \<lparr>suids = t, crs = ''auspix'', kind = ''rHEALPix'', Nside = 3,
      resolution = int (length t) - 1, wkt = ''CELL ('' @ Cell_repr t @ '')''\<rparr>"

definition suid_ok :: "elt list \<Rightarrow> bool" where
  "suid_ok t \<longleftrightarrow> rhealpix_validator [''N'', ''O'', ''P'', ''Q'', ''R'', ''S''] 3 t = Inr ()"

text \<open>A Cell value of the program: one that \<^verbatim>\<open>Cell.__init__\<close> has built.\<close>

definition valid_cell :: "Cell \<Rightarrow> bool" where
  "valid_cell c \<longleftrightarrow> suid_ok (suids c) \<and> c = cell_of (suids c)"

fun valid_arg :: "cells_arg \<Rightarrow> bool" where
  "valid_arg (OneCell c) = valid_cell c"
| "valid_arg (CellList cs) = list_all valid_cell cs"
| "valid_arg other = True"

text \<open>
  A CellCollection value of the program: one that the constructor has returned, for
  some valid enumeration of sets.
\<close>

definition built :: "CellCollection \<Rightarrow> bool" where
  "built s \<longleftrightarrow>
     (\<exists>so arg c k z. valid_order so \<and> valid_arg arg \<and> CellCollection_init so arg c k z = Inr s)"

text \<open>
  The integer \<^verbatim>\<open>_rhealpix_order\<close> sorts a suid by: the index of the face label followed
  by the digits, read as a decimal numeral.
\<close>

definition sort_value :: "elt list \<Rightarrow> int" where
  "sort_value t =
     (case order_num [''N'', ''O'', ''P'', ''Q'', ''R'', ''S''] t of
        Inl e \<Rightarrow> 0
      | Inr n \<Rightarrow> (case py_int n of None \<Rightarrow> 0 | Some v \<Rightarrow> v))"

text \<open>The same for a suid string, and the suid strings whose sort values are all different.\<close>

definition str_sort_value :: "string \<Rightarrow> int" where
  "str_sort_value x = (case suid_from_str x of Inl e \<Rightarrow> 0 | Inr t \<Rightarrow> sort_value t)"

definition distinct_sort_values :: "string list \<Rightarrow> bool" where
  "distinct_sort_values xs \<longleftrightarrow> distinct (map str_sort_value xs)"

text \<open>Whether nine suids of a list have the same parent, as \<^verbatim>\<open>_rhealpix_compress\<close> counts them.\<close>

definition nine_siblings :: "string list \<Rightarrow> bool" where
  "nine_siblings xs \<longleftrightarrow> list_ex (\<lambda>x. length (filter (\<lambda>y. butlast y = butlast x) xs) = 9) xs"

text \<open>
  Whether a suid has a proper, non-empty prefix in a set: the ancestors \<^verbatim>\<open>absorb\<close>
  looks for.
\<close>

definition has_anc :: "elt list set \<Rightarrow> elt list \<Rightarrow> bool" where
  "has_anc S t \<longleftrightarrow> (\<exists>i < length t - 1. take (i + 1) t \<in> S)"

text \<open>
  The collection that the constructor builds around a canonical list of suids, and the
  list that its pipeline hands to the ordering step.
\<close>

definition collection_of :: "elt list list \<Rightarrow> CellCollection" where
  "collection_of ts =
     \<lparr>cells = Some (map cell_of ts), cc_crs = Some ''auspix'', cc_kind = Some ''rHEALPix'',
      cc_suids = map Cell_repr ts,
      max_resolution =
        (case py_max (map (\<lambda>t. int (length t) - 1) ts) of Inl e \<Rightarrow> None | Inr m \<Rightarrow> Some m),
      min_resolution =
        (case py_min (map (\<lambda>t. int (length t) - 1) ts) of Inl e \<Rightarrow> None | Inr m \<Rightarrow> Some m),
      cc_wkt = Some (''CELLLIST (('' @ join_space (map Cell_repr ts) @ ''))'')\<rparr>"

definition pipeline :: "set_order \<Rightarrow> bool \<Rightarrow> elt list list \<Rightarrow> elt list list" where
  "pipeline so z ts = absorb so (deduplicate so (if z then rhealpix_compress ts else ts))"

text \<open>The digit string that the ordering step sorts a suid by.\<close>

definition order_string :: "elt list \<Rightarrow> string" where
  "order_string t = (case order_num [''N'', ''O'', ''P'', ''Q'', ''R'', ''S''] t of Inr n \<Rightarrow> n | Inl e \<Rightarrow> [])"

text \<open>
  The suids that the ordering step accepts: valid, and of at most 4300 elements, so that
  \<^verbatim>\<open>int\<close> reads their digit string. The same for a Cell.
\<close>

definition sortable :: "elt list \<Rightarrow> bool" where
  "sortable t \<longleftrightarrow> suid_ok t \<and> length t \<le> 4300"

definition sortable_cell :: "Cell \<Rightarrow> bool" where
  "sortable_cell c \<longleftrightarrow> valid_cell c \<and> length (suids c) \<le> 4300"

text \<open>The accumulators of a difference whose retained suids the ordering step accepts.\<close>

definition acc_ok :: "accumulators \<Rightarrow> bool" where
  "acc_ok acc \<longleftrightarrow> (\<forall>t \<in> set (cells_to_retain acc). sortable t)"

section \<open>Properties\<close>

subsection \<open>Overlap of two cells\<close>

lemma zip_agree_iff_prefix:
  "list_all (\<lambda>(i, j). i = j) (zip xs ys) \<longleftrightarrow> prefix xs ys \<or> prefix ys xs"
proof (induction xs arbitrary: ys)
  case Nil
  then show ?case by simp
next
  case (Cons x xs)
  then show ?case by (cases ys) auto
qed

lemma zip_agree_iff_take:
  "list_all (\<lambda>(i, j). i = j) (zip xs ys) \<longleftrightarrow>
     take (min (length xs) (length ys)) xs = take (min (length xs) (length ys)) ys"
proof (induction xs arbitrary: ys)
  case Nil
  then show ?case by simp
next
  case (Cons x xs)
  then show ?case by (cases ys) auto
qed

text \<open>
  Claim C5. \<^verbatim>\<open>a.overlaps(b)\<close> is true exactly when one suid is a prefix of the other,
  that is when the two suids agree element by element over their common length; hence
  \<^verbatim>\<open>a.overlaps(b) == b.overlaps(a)\<close>. This holds for all cells, valid or not.
\<close>

theorem overlaps_iff_prefix:
  "(Cell_overlaps a b \<longleftrightarrow> prefix (suids a) (suids b) \<or> prefix (suids b) (suids a)) \<and>
   (Cell_overlaps a b \<longleftrightarrow>
      take (min (length (suids a)) (length (suids b))) (suids a) =
      take (min (length (suids a)) (length (suids b))) (suids b)) \<and>
   Cell_overlaps a b = Cell_overlaps b a"
  unfolding Cell_overlaps_def zip_agree_iff_prefix
  using zip_agree_iff_take [of "suids a" "suids b"] zip_agree_iff_prefix [of "suids a" "suids b"]
  by auto

subsection \<open>The empty list given to the constructor\<close>

text \<open>
  Claim C8 says that an explicitly supplied empty sequence makes the constructor fail
  with a value error. The constructor tests \<^verbatim>\<open>self.empty()\<close> first, and an empty list
  is false in Python, so \<^verbatim>\<open>standardise_input\<close> and its check are never reached: the
  result is the same as for the empty string.
\<close>

theorem empty_list_no_value_error:
  "CellCollection_new plain_order (SuidList []) \<noteq> Inl ValueError \<and>
   CellCollection_new plain_order (SuidList []) = CellCollection_new plain_order (SuidString [])"
  by (simp add: CellCollection_new_def CellCollection_init_def)

text \<open>
  Claim C8, amended. For every crs, kind, compression flag and set enumeration, the
  constructor given an empty list of suids or of Cells raises nothing and returns the
  empty collection that holds that empty list (length 0, rendered
  \<^verbatim>\<open>Empty CellCollection\<close>); only \<^verbatim>\<open>standardise_input\<close> called on its own rejects the
  empty list with a value error.
\<close>

theorem empty_list_gives_sentinel:
  "CellCollection_init so (SuidList []) c k z = Inr (empty_collection (Some [])) \<and>
   CellCollection_init so (CellList []) c k z = Inr (empty_collection (Some [])) \<and>
   CellCollection_len (empty_collection (Some [])) = 0 \<and>
   CellCollection_repr (empty_collection (Some [])) = ''Empty CellCollection'' \<and>
   standardise_input (SuidList []) = Inl ValueError \<and>
   standardise_input (CellList []) = Inl ValueError"
  by (simp add: CellCollection_init_def empty_collection_def CellCollection_len_def
      CellCollection_repr_def)

subsection \<open>Compression is a single pass\<close>

text \<open>
  Claim C3 says that a collection built with compression holds no complete set of nine
  children. \<^verbatim>\<open>_rhealpix_compress\<close> groups the suids once: the 81 cells of resolution 2
  below \<^verbatim>\<open>P\<close> become the nine cells \<^verbatim>\<open>P0\<close> to \<^verbatim>\<open>P8\<close>, which are not grouped again.
\<close>

theorem compress_81_descendants:
  "map_sum id cc_suids
     (CellCollection_init plain_order
        (SuidList
           [''P00'', ''P01'', ''P02'', ''P03'', ''P04'', ''P05'', ''P06'', ''P07'',
           ''P08'', ''P10'', ''P11'', ''P12'', ''P13'', ''P14'', ''P15'', ''P16'',
           ''P17'', ''P18'', ''P20'', ''P21'', ''P22'', ''P23'', ''P24'', ''P25'',
           ''P26'', ''P27'', ''P28'', ''P30'', ''P31'', ''P32'', ''P33'', ''P34'',
           ''P35'', ''P36'', ''P37'', ''P38'', ''P40'', ''P41'', ''P42'', ''P43'',
           ''P44'', ''P45'', ''P46'', ''P47'', ''P48'', ''P50'', ''P51'', ''P52'',
           ''P53'', ''P54'', ''P55'', ''P56'', ''P57'', ''P58'', ''P60'', ''P61'',
           ''P62'', ''P63'', ''P64'', ''P65'', ''P66'', ''P67'', ''P68'', ''P70'',
           ''P71'', ''P72'', ''P73'', ''P74'', ''P75'', ''P76'', ''P77'', ''P78'',
           ''P80'', ''P81'', ''P82'', ''P83'', ''P84'', ''P85'', ''P86'', ''P87'', ''P88''])
        None None True) =
   Inr [''P0'', ''P1'', ''P2'', ''P3'', ''P4'', ''P5'', ''P6'', ''P7'', ''P8'']"
  by code_simp

subsection \<open>Neighbours of a collection at resolution 0\<close>

text \<open>
  Claim C7 says that \<^verbatim>\<open>neighbours(resolution)\<close> raises a value error for every
  resolution below the maximum resolution of the collection, 0 included. The test
  \<^verbatim>\<open>not resolution\<close> is true for 0, which is then replaced by the maximum resolution:
  \<^verbatim>\<open>CellCollection("P1").neighbours(0)\<close> returns the neighbours at resolution 1.
\<close>

theorem neighbours_resolution_zero:
  "(case CellCollection_new plain_order (SuidString ''P1'') of
      Inl e \<Rightarrow> False
    | Inr s \<Rightarrow>
        max_resolution s = Some 1 \<and>
        map_option (map_sum id cc_suids) (CellCollection_neighbours 1 plain_order s (Some 0)) =
          Some (Inr [''N2'', ''N5'', ''N8'', ''P0'', ''P2'', ''P3'', ''P4'', ''P5'']))"
  by code_simp

subsection \<open>Valid cells\<close>

lemma param_auspix:
  "parametrisations ''auspix'' =
     Some \<lparr>zero_cells = [''N'', ''O'', ''P'', ''Q'', ''R'', ''S''], N_sides = 3\<rparr>"
  by (simp add: parametrisations_def)

lemma param_cases:
  "parametrisations c = Some p \<Longrightarrow>
     c = ''auspix'' \<and> p = \<lparr>zero_cells = [''N'', ''O'', ''P'', ''Q'', ''R'', ''S''], N_sides = 3\<rparr>"
  by (auto simp: parametrisations_def split: if_splits)

lemma in_range_digits:
  "\<forall>d \<in> set xs. in_range d 9 \<Longrightarrow> \<exists>ks. xs = map Num ks \<and> digits_ok ks"
proof (induction xs)
  case Nil
  then show ?case by (simp add: digits_ok_def)
next
  case (Cons x xs)
  then obtain ks where ks: "xs = map Num ks" "digits_ok ks" by auto
  from Cons.prems have "in_range x 9" by simp
  then obtain k where k: "x = Num k" "0 \<le> k" "k < 9" by (cases x) auto
  have "x # xs = map Num (k # ks) \<and> digits_ok (k # ks)"
    using ks k by (simp add: digits_ok_def)
  then show ?case by (intro exI [of _ "k # ks"])
qed

lemma digits_in_range: "digits_ok ks \<Longrightarrow> d \<in> set (map Num ks) \<Longrightarrow> in_range d 9"
  by (auto simp: digits_ok_def list_all_iff)

lemma validator_iff:
  "rhealpix_validator [''N'', ''O'', ''P'', ''Q'', ''R'', ''S''] 3 t = Inr () \<longleftrightarrow>
     (\<exists>l ks. t = Label l # map Num ks \<and> face_ok l \<and> digits_ok ks)"
proof
  assume v: "rhealpix_validator [''N'', ''O'', ''P'', ''Q'', ''R'', ''S''] 3 t = Inr ()"
  then obtain x ds where t: "t = x # ds"
    by (cases t) (auto simp: rhealpix_validator_def)
  from v t have x: "x \<in> set (map Label [''N'', ''O'', ''P'', ''Q'', ''R'', ''S''])"
    and ds: "\<forall>d \<in> set ds. in_range d 9"
    by (auto simp: rhealpix_validator_def split: if_splits)
  from x obtain l where l: "x = Label l" "face_ok l" by (auto simp: face_ok_def)
  from in_range_digits [OF ds] obtain ks where "ds = map Num ks" "digits_ok ks" by blast
  with t l show "\<exists>l ks. t = Label l # map Num ks \<and> face_ok l \<and> digits_ok ks" by blast
next
  assume "\<exists>l ks. t = Label l # map Num ks \<and> face_ok l \<and> digits_ok ks"
  then obtain l ks where t: "t = Label l # map Num ks" and l: "face_ok l" and ks: "digits_ok ks"
    by blast
  have "\<forall>d \<in> set (map Num ks). in_range d 9" using digits_in_range [OF ks] by blast
  then have "\<not> (\<exists>d \<in> set (map Num ks). \<not> in_range d (3 ^ 2))" by simp
  moreover have "Label l \<in> set (map Label [''N'', ''O'', ''P'', ''Q'', ''R'', ''S''])"
    using l by (auto simp: face_ok_def)
  ultimately show "rhealpix_validator [''N'', ''O'', ''P'', ''Q'', ''R'', ''S''] 3 t = Inr ()"
    unfolding rhealpix_validator_def t by simp
qed

lemma validator_unit:
  "rhealpix_validator zc n t = Inr u \<longleftrightarrow> rhealpix_validator zc n t = Inr ()"
  by simp

lemma Cell_init_Inr:
  assumes "Cell_init arg k c = Inr x"
  shows "\<exists>l ks. face_ok l \<and> digits_ok ks \<and> x = cell_of (Label l # map Num ks) \<and>
           k = ''rHEALPix'' \<and> c = ''auspix''"
proof -
  from assms obtain p where p: "parametrisations c = Some p"
    by (auto simp: Cell_init_def split: option.splits)
  from param_cases [OF p] have c: "c = ''auspix''"
    and pv: "p = \<lparr>zero_cells = [''N'', ''O'', ''P'', ''Q'', ''R'', ''S''], N_sides = 3\<rparr>"
    by simp_all
  from assms p obtain t where
    k: "k = ''rHEALPix''" and
    v: "rhealpix_validator (zero_cells p) (N_sides p) t = Inr ()" and
    x: "x = \<lparr>suids = t, crs = c, kind = k, Nside = N_sides p,
              resolution = int (length t) - 1, wkt = ''CELL ('' @ Cell_repr t @ '')''\<rparr>"
    by (auto simp: Cell_init_def split: sum.splits if_splits)
  from v pv have "rhealpix_validator [''N'', ''O'', ''P'', ''Q'', ''R'', ''S''] 3 t = Inr ()"
    by simp
  then obtain l ks where "t = Label l # map Num ks" "face_ok l" "digits_ok ks"
    unfolding validator_iff by blast
  with x c k pv show ?thesis by (auto simp: cell_of_def)
qed

lemma Cell_new_tuple:
  assumes "face_ok l" "digits_ok ks"
  shows "Cell_new (FromTuple (Label l # map Num ks)) = Inr (cell_of (Label l # map Num ks))"
proof -
  have "rhealpix_validator [''N'', ''O'', ''P'', ''Q'', ''R'', ''S''] 3 (Label l # map Num ks) = Inr ()"
    unfolding validator_iff using assms by blast
  then show ?thesis
    by (simp add: Cell_new_def Cell_init_def param_auspix cell_of_def)
qed


subsection \<open>The neighbour of a valid cell\<close>

lemma border3:
  "border_digits 3 d =
     (case d of Left \<Rightarrow> [0, 3, 6] | Right \<Rightarrow> [2, 5, 8] | Up \<Rightarrow> [0, 1, 2] | Down \<Rightarrow> [6, 7, 8])"
  by (cases d) (simp_all add: border_digits_def upt_rec)

lemma digit_cases:
  "0 \<le> e \<Longrightarrow> e < 9 \<Longrightarrow>
     e = 0 \<or> e = 1 \<or> e = 2 \<or> e = 3 \<or> e = 4 \<or> e = 5 \<or> e = 6 \<or> e = 7 \<or> e = (8::int)"
  by arith

lemma digit_step:
  assumes "0 \<le> e" "e < 9"
  shows "\<exists>e'. n3_table (Num e) d = Some (Num e') \<and> 0 \<le> e' \<and> e' < 9 \<and> e' \<noteq> e \<and>
           n3_table (Num e') (opposite d) = Some (Num e) \<and>
           (in_border 3 (opposite d) (Num e') \<longleftrightarrow> in_border 3 d (Num e))"
  using digit_cases [OF assms] by (cases d) (auto simp: border3)

lemma face_step:
  assumes "face_ok l"
  shows "\<exists>l'. n3_table (Label l) d = Some (Label l') \<and> face_ok l' \<and> l' \<noteq> l"
  using assms by (cases d) (auto simp: face_ok_def)

lemma scan_crossed: "neighbour_scan an n d True xs = Inr xs"
  by (induction xs) simp_all

lemma scan_valid:
  assumes "digits_ok es" "face_ok l"
  shows "\<exists>es' l'.
           neighbour_scan n3_table 3 d False (map Num es @ [Label l]) = Inr (map Num es' @ [Label l']) \<and>
           digits_ok es' \<and> face_ok l' \<and> length es' = length es \<and>
           (es \<noteq> [] \<longrightarrow> hd es' \<noteq> hd es) \<and> (es = [] \<longrightarrow> l' \<noteq> l) \<and>
           (l' = l \<longrightarrow>
              neighbour_scan n3_table 3 (opposite d) False (map Num es' @ [Label l]) =
                Inr (map Num es @ [Label l]))"
  using assms
proof (induction es)
  case Nil
  from face_step [OF Nil(2)] obtain l' where
    "n3_table (Label l) d = Some (Label l')" "face_ok l'" "l' \<noteq> l" by blast
  then show ?case
    by (intro exI [of _ "[]"] exI [of _ l']) (simp add: digits_ok_def)
next
  case (Cons e es)
  from Cons.prems have e: "0 \<le> e" "e < 9" and es: "digits_ok es"
    by (simp_all add: digits_ok_def)
  from digit_step [OF e] obtain e' where e':
    "n3_table (Num e) d = Some (Num e')" "0 \<le> e'" "e' < 9" "e' \<noteq> e"
    "n3_table (Num e') (opposite d) = Some (Num e)"
    "in_border 3 (opposite d) (Num e') \<longleftrightarrow> in_border 3 d (Num e)"
    by blast
  show ?case
  proof (cases "in_border 3 d (Num e)")
    case True
    from Cons.IH [OF es Cons.prems(2)] obtain es' l' where ih:
      "neighbour_scan n3_table 3 d False (map Num es @ [Label l]) = Inr (map Num es' @ [Label l'])"
      "digits_ok es'" "face_ok l'" "length es' = length es"
      "l' = l \<longrightarrow>
         neighbour_scan n3_table 3 (opposite d) False (map Num es' @ [Label l]) =
           Inr (map Num es @ [Label l])"
      by blast
    show ?thesis
      using True e' ih
      by (intro exI [of _ "e' # es'"] exI [of _ l']) (simp add: digits_ok_def)
  next
    case False
    show ?thesis
      using False e' es Cons.prems(2)
      by (intro exI [of _ "e' # es"] exI [of _ l]) (simp add: digits_ok_def scan_crossed)
  qed
qed

lemma rotate_items3:
  "rotate_items 3 [''N'', ''O'', ''P'', ''Q'', ''R'', ''S''] =
     [(Num 0, Num 2), (Num 1, Num 5), (Num 2, Num 8), (Num 3, Num 1), (Num 4, Num 4),
      (Num 5, Num 7), (Num 6, Num 0), (Num 7, Num 3), (Num 8, Num 6),
      (Label ''N'', Label ''N''), (Label ''O'', Label ''O''), (Label ''P'', Label ''P''),
      (Label ''Q'', Label ''Q''), (Label ''R'', Label ''R''), (Label ''S'', Label ''S'')]"
  by code_simp

lemma rotate_get_label:
  "face_ok l \<Longrightarrow>
     dict_get (rotate_items 3 [''N'', ''O'', ''P'', ''Q'', ''R'', ''S'']) (Label l) = Inr (Label l)"
  unfolding rotate_items3 by (auto simp: face_ok_def dict_get_def)

lemma rotate_get_digit:
  assumes "0 \<le> e" "e < 9"
  shows "\<exists>e'. dict_get (rotate_items 3 [''N'', ''O'', ''P'', ''Q'', ''R'', ''S'']) (Num e) = Inr (Num e')
           \<and> 0 \<le> e' \<and> e' < 9"
  unfolding rotate_items3 using digit_cases [OF assms] by (auto simp: dict_get_def)

lemma mod4_cases: "(q::nat) mod 4 = 0 \<or> q mod 4 = 1 \<or> q mod 4 = 2 \<or> q mod 4 = 3"
  by arith

lemma rotate_entry_label:
  assumes "face_ok l" "crs c = ''auspix''" "Nside c = 3"
  shows "rotate_entry c (Label l) q = Inr (Label l)"
  using mod4_cases [of q] assms
  by (auto simp: rotate_entry_def param_auspix rotate_get_label Let_def)

lemma rotate_entry_digit:
  assumes "0 \<le> e" "e < 9" "crs c = ''auspix''" "Nside c = 3"
  shows "\<exists>e'. rotate_entry c (Num e) q = Inr (Num e') \<and> 0 \<le> e' \<and> e' < 9"
proof -
  let ?f = "rotate_items 3 [''N'', ''O'', ''P'', ''Q'', ''R'', ''S'']"
  from rotate_get_digit [OF assms(1,2)] obtain e1 where
    e1: "dict_get ?f (Num e) = Inr (Num e1)" "0 \<le> e1" "e1 < 9" by blast
  from rotate_get_digit [OF e1(2,3)] obtain e2 where
    e2: "dict_get ?f (Num e1) = Inr (Num e2)" "0 \<le> e2" "e2 < 9" by blast
  from rotate_get_digit [OF e2(2,3)] obtain e3 where
    e3: "dict_get ?f (Num e2) = Inr (Num e3)" "0 \<le> e3" "e3 < 9" by blast
  show ?thesis
    using mod4_cases [of q] assms e1 e2 e3
    by (auto simp: rotate_entry_def param_auspix Let_def)
qed

lemma rotate_digits:
  assumes "digits_ok ks" "crs c = ''auspix''" "Nside c = 3"
  shows "\<exists>ks'. emap (\<lambda>x. rotate_entry c x q) (map Num ks) = Inr (map Num ks') \<and>
           digits_ok ks' \<and> length ks' = length ks"
  using assms(1)
proof (induction ks)
  case Nil
  then show ?case by (simp add: digits_ok_def)
next
  case (Cons k ks)
  then have k: "0 \<le> k" "k < 9" and ks: "digits_ok ks" by (simp_all add: digits_ok_def)
  from rotate_entry_digit [OF k assms(2,3)] obtain k' where
    k': "rotate_entry c (Num k) q = Inr (Num k')" "0 \<le> k'" "k' < 9" by blast
  from Cons.IH [OF ks] obtain ks' where
    "emap (\<lambda>x. rotate_entry c x q) (map Num ks) = Inr (map Num ks')" "digits_ok ks'"
    "length ks' = length ks" by blast
  with k' show ?case
    by (intro exI [of _ "k' # ks'"]) (simp add: digits_ok_def)
qed

lemma rotate_valid:
  assumes "face_ok l" "digits_ok ks" "crs c = ''auspix''" "Nside c = 3"
  shows "\<exists>ks'. rotate c (Label l # map Num ks) q = Inr (Label l # map Num ks') \<and>
           digits_ok ks' \<and> length ks' = length ks"
proof -
  from rotate_digits [OF assms(2,3,4)] obtain ks' where
    "emap (\<lambda>x. rotate_entry c x q) (map Num ks) = Inr (map Num ks')" "digits_ok ks'"
    "length ks' = length ks" by blast
  then show ?thesis
    using rotate_entry_label [OF assms(1,3,4)]
    by (intro exI [of _ ks']) (simp add: rotate_def)
qed

lemma quarter_turns_same_face:
  "face_ok l \<Longrightarrow>
     quarter_turns_for n3_table [''N'', ''O'', ''P'', ''Q'', ''R'', ''S''] (Label l) (Label l) = 0"
  by (auto simp: face_ok_def quarter_turns_for_def)


lemma Cell_neighbour_step:
  assumes "neighbour_scan n3_table 3 d False (map Num (rev ks) @ [Label l]) =
             Inr (map Num es' @ [Label l'])"
  shows "Cell_neighbour (cell_of (Label l # map Num ks)) d =
     (let q = quarter_turns_for n3_table [''N'', ''O'', ''P'', ''Q'', ''R'', ''S''] (Label l) (Label l')
      in case (if q = 0 then Inr (Label l' # map Num (rev es'))
               else rotate (cell_of (Label l # map Num ks)) (Label l' # map Num (rev es')) q) of
           Inl e \<Rightarrow> Inl e
         | Inr nb \<Rightarrow> Cell_new (FromTuple nb))"
  using assms
  by (simp add: Cell_neighbour_def atomic_neighbours_def cell_of_def param_auspix
      n3_atomic_neighbours_def rev_map Let_def)

lemma digits_ok_rev: "digits_ok (rev ks) = digits_ok ks"
  by (simp add: digits_ok_def list_all_iff)

lemma map_Num_eq: "map Num xs = map Num ys \<longleftrightarrow> xs = ys"
  by (rule inj_map_eq_map) (simp add: inj_on_def)

lemma last_differs: "length xs = length ys \<Longrightarrow> ys \<noteq> [] \<Longrightarrow> hd (rev xs) \<noteq> hd (rev ys) \<Longrightarrow> xs \<noteq> ys"
  by auto

lemma Cell_neighbour_valid:
  assumes l: "face_ok l" and ks: "digits_ok ks"
  shows "\<exists>l' ks'.
           Cell_neighbour (cell_of (Label l # map Num ks)) d = Inr (cell_of (Label l' # map Num ks')) \<and>
           face_ok l' \<and> digits_ok ks' \<and> length ks' = length ks \<and>
           Label l' # map Num ks' \<noteq> Label l # map Num ks \<and>
           (l' = l \<longrightarrow>
              Cell_neighbour (cell_of (Label l # map Num ks')) (opposite d) =
                Inr (cell_of (Label l # map Num ks)))"
proof -
  let ?zc = "[''N'', ''O'', ''P'', ''Q'', ''R'', ''S'']"
  let ?c = "cell_of (Label l # map Num ks)"
  have rks: "digits_ok (rev ks)" using ks by (simp add: digits_ok_rev)
  from scan_valid [OF rks l, of d] obtain es' l' where sc:
    "neighbour_scan n3_table 3 d False (map Num (rev ks) @ [Label l]) = Inr (map Num es' @ [Label l'])"
    and es': "digits_ok es'" and l': "face_ok l'" and len: "length es' = length (rev ks)"
    and hd_diff: "rev ks \<noteq> [] \<longrightarrow> hd es' \<noteq> hd (rev ks)"
    and face_diff: "rev ks = [] \<longrightarrow> l' \<noteq> l"
    and bk: "l' = l \<longrightarrow>
       neighbour_scan n3_table 3 (opposite d) False (map Num es' @ [Label l]) =
         Inr (map Num (rev ks) @ [Label l])"
    by blast
  have res': "digits_ok (rev es')" using es' by (simp add: digits_ok_rev)
  note step = Cell_neighbour_step [OF sc]
  show ?thesis
  proof (cases "quarter_turns_for n3_table ?zc (Label l) (Label l') = 0")
    case True
    have nb: "Cell_neighbour ?c d = Inr (cell_of (Label l' # map Num (rev es')))"
      using step True Cell_new_tuple [OF l' res'] by simp
    have diff: "Label l' # map Num (rev es') \<noteq> Label l # map Num ks"
    proof (cases "ks = []")
      case True
      then show ?thesis using face_diff by simp
    next
      case False
      have "length (rev es') = length ks" using len by simp
      moreover have "hd (rev (rev es')) \<noteq> hd (rev ks)" using hd_diff False by simp
      ultimately have "rev es' \<noteq> ks" using False last_differs by blast
      then have "map Num (rev es') \<noteq> map Num ks" by (simp add: map_Num_eq)
      then show ?thesis by simp
    qed
    have opp: "l' = l \<longrightarrow>
        Cell_neighbour (cell_of (Label l # map Num (rev es'))) (opposite d) = Inr ?c"
    proof
      assume eq: "l' = l"
      have sc2: "neighbour_scan n3_table 3 (opposite d) False (map Num (rev (rev es')) @ [Label l]) =
          Inr (map Num (rev ks) @ [Label l])"
        using bk eq by simp
      show "Cell_neighbour (cell_of (Label l # map Num (rev es'))) (opposite d) = Inr ?c"
        using Cell_neighbour_step [OF sc2] quarter_turns_same_face [OF l] Cell_new_tuple [OF l ks]
        by simp
    qed
    show ?thesis
      using nb l' res' len diff opp
      by (intro exI [of _ l'] exI [of _ "rev es'"]) simp
  next
    case False
    then have ll: "l' \<noteq> l" using quarter_turns_same_face [OF l] by auto
    have "crs ?c = ''auspix''" "Nside ?c = 3" by (simp_all add: cell_of_def)
    from rotate_valid [OF l' res' this] obtain ks' where rot:
      "rotate ?c (Label l' # map Num (rev es'))
         (quarter_turns_for n3_table ?zc (Label l) (Label l')) = Inr (Label l' # map Num ks')"
      and ks': "digits_ok ks'" and len': "length ks' = length (rev es')"
      by blast
    have nb: "Cell_neighbour ?c d = Inr (cell_of (Label l' # map Num ks'))"
      using step False rot Cell_new_tuple [OF l' ks'] by simp
    show ?thesis
      using nb l' ks' len len' ll
      by (intro exI [of _ l'] exI [of _ ks']) simp
  qed
qed

text \<open>
  A single step leaves the cell: for every valid cell and every direction,
  \<^verbatim>\<open>neighbour\<close> returns a cell of the same resolution whose suid differs from the
  cell's own. Within a face the last digit changes, and across faces the label does.
\<close>

theorem neighbour_differs:
  assumes "Cell_init arg k c = Inr a"
  shows "\<exists>b. Cell_neighbour a d = Inr b \<and> suids b \<noteq> suids a \<and> b \<noteq> a \<and>
           resolution b = resolution a"
proof -
  from Cell_init_Inr [OF assms] obtain l ks where
    l: "face_ok l" and ks: "digits_ok ks" and a: "a = cell_of (Label l # map Num ks)"
    by blast
  from Cell_neighbour_valid [OF l ks, of d] obtain l' ks' where
    "Cell_neighbour a d = Inr (cell_of (Label l' # map Num ks'))"
    "length ks' = length ks" "Label l' # map Num ks' \<noteq> Label l # map Num ks"
    unfolding a by blast
  then show ?thesis
    unfolding a
    by (intro exI [of _ "cell_of (Label l' # map Num ks')"]) (auto simp: cell_of_def)
qed

theorem neighbour_differs_witness:
  "Cell_init (FromStr ''N0'') ''rHEALPix'' ''auspix'' = Inr (cell_of [Label ''N'', Num 0]) \<and>
   (\<exists>b. Cell_neighbour (cell_of [Label ''N'', Num 0]) Left = Inr b \<and>
        suids b \<noteq> suids (cell_of [Label ''N'', Num 0]) \<and> b \<noteq> cell_of [Label ''N'', Num 0] \<and>
        resolution b = resolution (cell_of [Label ''N'', Num 0]))"
proof -
  have h: "Cell_init (FromStr ''N0'') ''rHEALPix'' ''auspix'' = Inr (cell_of [Label ''N'', Num 0])"
    by code_simp
  show ?thesis using h neighbour_differs [OF h, of Left] by simp
qed

text \<open>
  Claim C9 says that no neighbour of a cell \<open>c\<close> is \<open>c\<close>, and hence that
  \<^verbatim>\<open>c.neighbours()\<close>, documented to return the neighbouring cells of \<open>c\<close>, never
  contains \<open>c\<close>. The diagonal neighbours are two steps composed, and at a corner of
  the cube the second step comes back: the left neighbour of \<^verbatim>\<open>N0\<close> is \<^verbatim>\<open>R0\<close>,
  whose up neighbour is \<^verbatim>\<open>N0\<close>, and \<^verbatim>\<open>Cell("N0").neighbours()\<close> holds \<^verbatim>\<open>N0\<close>.
\<close>

theorem neighbours_contain_corner_cell:
  "Cell_new (FromStr ''N0'') = Inr (cell_of [Label ''N'', Num 0]) \<and>
   Cell_neighbour (cell_of [Label ''N'', Num 0]) Left = Inr (cell_of [Label ''R'', Num 0]) \<and>
   Cell_neighbour (cell_of [Label ''R'', Num 0]) Up = Inr (cell_of [Label ''N'', Num 0]) \<and>
   map_sum id cc_suids (Cell_neighbours plain_order (cell_of [Label ''N'', Num 0]) True) =
     Inr [''N0'', ''N1'', ''N3'', ''N4'', ''Q1'', ''Q2'', ''R0'', ''R3'']"
  by code_simp

text \<open>
  The same happens along the left and right edges of the two polar faces, at every
  resolution: the neighbours of \<^verbatim>\<open>N3\<close>, of \<^verbatim>\<open>S5\<close> and of \<^verbatim>\<open>N33\<close> hold the cell
  itself. Without the diagonals, the neighbours of \<^verbatim>\<open>N0\<close> are four other cells.
\<close>

theorem neighbours_contain_edge_cells:
  "map_sum id cc_suids (Cell_neighbours plain_order (cell_of [Label ''N'', Num 3]) True) =
     Inr [''N0'', ''N1'', ''N3'', ''N4'', ''N6'', ''N7'', ''R1'', ''R4''] \<and>
   map_sum id cc_suids (Cell_neighbours plain_order (cell_of [Label ''S'', Num 5]) True) =
     Inr [''P4'', ''P7'', ''S1'', ''S2'', ''S4'', ''S5'', ''S7'', ''S8''] \<and>
   map_sum id cc_suids (Cell_neighbours plain_order (cell_of [Label ''N'', Num 3, Num 3]) True) =
     Inr [''N30'', ''N31'', ''N33'', ''N34'', ''N36'', ''N37'', ''R11'', ''R14''] \<and>
   map_sum id cc_suids (Cell_neighbours plain_order (cell_of [Label ''N'', Num 0]) False) =
     Inr [''N1'', ''N3'', ''Q2'', ''R0'']"
  by code_simp



subsection \<open>Suids as strings\<close>

lemma suid_ok_iff:
  "suid_ok t \<longleftrightarrow> (\<exists>l ks. t = Label l # map Num ks \<and> face_ok l \<and> digits_ok ks)"
  unfolding suid_ok_def by (rule validator_iff)

lemma suid_okI: "face_ok l \<Longrightarrow> digits_ok ks \<Longrightarrow> suid_ok (Label l # map Num ks)"
  unfolding suid_ok_iff by blast

lemma str_int_digit: "0 \<le> k \<Longrightarrow> k < 9 \<Longrightarrow> str_int k = [''0123456789'' ! nat k]"
  by (simp add: str_int_def str_nat.simps)

lemma int_of_digit_char: "0 \<le> k \<Longrightarrow> k < 9 \<Longrightarrow> int_of_char (''0123456789'' ! nat k) = Some k"
  using digit_cases [of k] by (auto simp: int_of_char_def)

lemma those_digits:
  "digits_ok ks \<Longrightarrow> those (map int_of_char (concat (map str_int ks))) = Some ks"
proof (induction ks)
  case Nil
  then show ?case by simp
next
  case (Cons k ks)
  then have k: "0 \<le> k" "k < 9" and ks: "digits_ok ks" by (simp_all add: digits_ok_def)
  show ?case using Cons.IH [OF ks] by (simp add: str_int_digit [OF k] int_of_digit_char [OF k])
qed

lemma face_single: "face_ok l \<Longrightarrow> \<exists>ch. l = [ch]"
  by (auto simp: face_ok_def)

lemma repr_digits: "Cell_repr (Label l # map Num ks) = l @ concat (map str_int ks)"
  by (simp add: Cell_repr_def comp_def)

lemma parse_repr:
  assumes "face_ok l" "digits_ok ks"
  shows "suid_from_str (Cell_repr (Label l # map Num ks)) = Inr (Label l # map Num ks)"
proof -
  from face_single [OF assms(1)] obtain ch where "l = [ch]" by blast
  then show ?thesis by (simp add: repr_digits those_digits [OF assms(2)])
qed

lemma parse_repr_ok: "suid_ok t \<Longrightarrow> suid_from_str (Cell_repr t) = Inr t"
  unfolding suid_ok_iff using parse_repr by blast

lemma Cell_new_repr:
  assumes "suid_ok t"
  shows "Cell_new (FromStr (Cell_repr t)) = Inr (cell_of t)"
proof -
  have p: "suid_from_str (Cell_repr t) = Inr t" by (rule parse_repr_ok [OF assms])
  have v: "rhealpix_validator [''N'', ''O'', ''P'', ''Q'', ''R'', ''S''] 3 t = Inr ()"
    using assms by (simp add: suid_ok_def)
  show ?thesis by (simp add: Cell_new_def Cell_init_def param_auspix p v cell_of_def)
qed

lemma Cell_new_tuple_ok: "suid_ok t \<Longrightarrow> Cell_new (FromTuple t) = Inr (cell_of t)"
  unfolding suid_ok_iff using Cell_new_tuple by blast

lemma repr_inj:
  assumes "suid_ok t" "suid_ok u" "Cell_repr t = Cell_repr u"
  shows "t = u"
proof -
  have "Inr t = suid_from_str (Cell_repr t)" using parse_repr_ok [OF assms(1)] by simp
  also have "\<dots> = suid_from_str (Cell_repr u)" by (simp only: assms(3))
  also have "\<dots> = Inr u" by (rule parse_repr_ok [OF assms(2)])
  finally show ?thesis by simp
qed

lemma repr_inj_on: "inj_on Cell_repr {t. suid_ok t}"
  by (rule inj_onI) (simp add: repr_inj)

lemma Cell_init_valid: "Cell_init arg k c = Inr x \<Longrightarrow> valid_cell x"
  using Cell_init_Inr [of arg k c x] by (auto simp: valid_cell_def cell_of_def suid_okI)

lemma Cell_new_valid: "Cell_new arg = Inr x \<Longrightarrow> valid_cell x"
  unfolding Cell_new_def by (rule Cell_init_valid)

lemma cell_of_valid: "suid_ok t \<Longrightarrow> valid_cell (cell_of t)"
  by (simp add: valid_cell_def cell_of_def)

lemma suids_cell_of [simp]: "suids (cell_of t) = t"
  by (simp add: cell_of_def)

lemma resolution_cell_of [simp]: "resolution (cell_of t) = int (length t) - 1"
  by (simp add: cell_of_def)

lemma crs_cell_of [simp]: "crs (cell_of t) = ''auspix''"
  by (simp add: cell_of_def)

lemma kind_cell_of [simp]: "kind (cell_of t) = ''rHEALPix''"
  by (simp add: cell_of_def)

lemma cell_of_inj: "cell_of t = cell_of u \<longleftrightarrow> t = u"
  by (auto simp: cell_of_def)

subsection \<open>The ordering step\<close>

lemma face_index:
  assumes "face_ok l"
  shows "\<exists>i. index_of (map Label [''N'', ''O'', ''P'', ''Q'', ''R'', ''S'']) (Label l) = Some i \<and>
           i < 6 \<and> [''N'', ''O'', ''P'', ''Q'', ''R'', ''S''] ! i = l"
  using assms by (auto simp: face_ok_def)

lemma digits_length: "digits_ok ks \<Longrightarrow> length (concat (map str_int ks)) = length ks"
proof (induction ks)
  case Nil
  then show ?case by simp
next
  case (Cons k ks)
  then have "0 \<le> k" "k < 9" "digits_ok ks" by (simp_all add: digits_ok_def)
  with Cons.IH show ?case by (simp add: str_int_digit)
qed

lemma py_int_long: "4300 < length s \<Longrightarrow> py_int s = None"
  by (simp add: py_int_def)

lemma py_int_Some_short: "py_int s = Some v \<Longrightarrow> length s \<le> 4300"
  by (simp add: py_int_def split: if_splits)

lemma py_int_digits:
  assumes "0 \<le> i" "i < 9" "digits_ok ks" "length ks < 4300"
  shows "py_int (str_int i @ concat (map str_int ks)) = Some (foldl (\<lambda>a d. 10 * a + d) 0 (i # ks))"
proof -
  have "digits_ok (i # ks)" using assms by (simp add: digits_ok_def)
  from those_digits [OF this] show ?thesis
    using assms(4)
    by (simp add: py_int_def str_int_digit [OF assms(1,2)] digits_length [OF assms(3)])
qed

lemma order_num_string:
  assumes l: "face_ok l" and ks: "digits_ok ks"
  shows "\<exists>i. i < 6 \<and> [''N'', ''O'', ''P'', ''Q'', ''R'', ''S''] ! i = l \<and>
           order_num [''N'', ''O'', ''P'', ''Q'', ''R'', ''S''] (Label l # map Num ks) =
             Inr (str_int (int i) @ concat (map str_int ks))"
proof -
  from face_index [OF l] obtain i where i:
    "index_of (map Label [''N'', ''O'', ''P'', ''Q'', ''R'', ''S'']) (Label l) = Some i"
    "i < 6" "[''N'', ''O'', ''P'', ''Q'', ''R'', ''S''] ! i = l" by blast
  have "order_num [''N'', ''O'', ''P'', ''Q'', ''R'', ''S''] (Label l # map Num ks) =
      Inr (str_int (int i) @ concat (map str_int ks))"
    using i(1) by (simp add: order_num_def comp_def)
  with i show ?thesis by blast
qed

lemma order_num_length:
  assumes "suid_ok t"
  shows "\<exists>n. order_num [''N'', ''O'', ''P'', ''Q'', ''R'', ''S''] t = Inr n \<and> length n = length t"
proof -
  from assms obtain l ks where t: "t = Label l # map Num ks" and l: "face_ok l" and ks: "digits_ok ks"
    unfolding suid_ok_iff by blast
  from order_num_string [OF l ks] obtain i where i: "i < 6"
    "order_num [''N'', ''O'', ''P'', ''Q'', ''R'', ''S''] t = Inr (str_int (int i) @ concat (map str_int ks))"
    unfolding t by blast
  have i9: "0 \<le> int i" "int i < 9" using i(1) by simp_all
  have "length (str_int (int i) @ concat (map str_int ks)) = length t"
    unfolding t by (simp add: str_int_digit [OF i9] digits_length [OF ks])
  with i(2) show ?thesis by blast
qed

lemma order_num_valid:
  assumes l: "face_ok l" and ks: "digits_ok ks" and len: "length ks < 4300"
  shows "\<exists>i. i < 6 \<and> [''N'', ''O'', ''P'', ''Q'', ''R'', ''S''] ! i = l \<and>
           order_num [''N'', ''O'', ''P'', ''Q'', ''R'', ''S''] (Label l # map Num ks) =
             Inr (str_int (int i) @ concat (map str_int ks)) \<and>
           sort_value (Label l # map Num ks) = foldl (\<lambda>a d. 10 * a + d) (int i) ks"
proof -
  from face_index [OF l] obtain i where i:
    "index_of (map Label [''N'', ''O'', ''P'', ''Q'', ''R'', ''S'']) (Label l) = Some i"
    "i < 6" "[''N'', ''O'', ''P'', ''Q'', ''R'', ''S''] ! i = l" by blast
  have num: "order_num [''N'', ''O'', ''P'', ''Q'', ''R'', ''S''] (Label l # map Num ks) =
      Inr (str_int (int i) @ concat (map str_int ks))"
    using i(1) by (simp add: order_num_def comp_def)
  have "0 \<le> int i" "int i < 9" using i(2) by simp_all
  from py_int_digits [OF this ks len] have
    "py_int (str_int (int i) @ concat (map str_int ks)) = Some (foldl (\<lambda>a d. 10 * a + d) (int i) ks)"
    by simp
  with num have "sort_value (Label l # map Num ks) = foldl (\<lambda>a d. 10 * a + d) (int i) ks"
    by (simp add: sort_value_def)
  with i num show ?thesis by blast
qed

lemma order_num_ok:
  assumes "sortable t"
  shows "\<exists>n. order_num [''N'', ''O'', ''P'', ''Q'', ''R'', ''S''] t = Inr n \<and>
           py_int n = Some (sort_value t) \<and>
           order_back [''N'', ''O'', ''P'', ''Q'', ''R'', ''S''] n = Inr (Cell_repr t)"
proof -
  from assms have "suid_ok t" and tl: "length t \<le> 4300" by (simp_all add: sortable_def)
  then obtain l ks where t: "t = Label l # map Num ks" and l: "face_ok l" and ks: "digits_ok ks"
    unfolding suid_ok_iff by blast
  from tl have len: "length ks < 4300" unfolding t by simp
  from order_num_valid [OF l ks len] obtain i where i: "i < 6"
    "[''N'', ''O'', ''P'', ''Q'', ''R'', ''S''] ! i = l"
    "order_num [''N'', ''O'', ''P'', ''Q'', ''R'', ''S''] t = Inr (str_int (int i) @ concat (map str_int ks))"
    "sort_value t = foldl (\<lambda>a d. 10 * a + d) (int i) ks"
    unfolding t by blast
  have i9: "0 \<le> int i" "int i < 9" using i(1) by simp_all
  have py: "py_int (str_int (int i) @ concat (map str_int ks)) = Some (sort_value t)"
    using py_int_digits [OF i9 ks len] i(4) by simp
  have ic: "int_of_char (''0123456789'' ! i) = Some (int i)"
    using int_of_digit_char [OF i9] by simp
  have "order_back [''N'', ''O'', ''P'', ''Q'', ''R'', ''S''] (str_int (int i) @ concat (map str_int ks)) =
      Inr (l @ concat (map str_int ks))"
    using i(1,2) by (simp add: order_back_def str_int_digit [OF i9] ic py_nth_def)
  then show ?thesis using i(3) py unfolding t repr_digits by blast
qed

lemma emap_Inr: "(\<And>x. x \<in> set xs \<Longrightarrow> f x = Inr (g x)) \<Longrightarrow> emap f xs = Inr (map g xs)"
  by (induction xs) simp_all

lemma emap_map: "emap f (map h xs) = emap (\<lambda>x. f (h x)) xs"
  by (induction xs) (simp_all split: sum.splits)

lemma those_map_Some: "(\<And>x. x \<in> set xs \<Longrightarrow> f x = Some (g x)) \<Longrightarrow> those (map f xs) = Some (map g xs)"
  by (induction xs) simp_all

lemma insort_key_map:
  "insort_key f (h x) (map h xs) = map h (insort_key (\<lambda>y. f (h y)) x xs)"
  by (induction xs) simp_all

lemma sort_key_map: "sort_key f (map h xs) = map h (sort_key (\<lambda>y. f (h y)) xs)"
  by (induction xs) (simp_all add: insort_key_map)

lemma sort_zip:
  "map snd (sort_key fst (zip (map f xs) (map g xs))) = map g (sort_key f xs)"
proof -
  have "zip (map f xs) (map g xs) = map (\<lambda>x. (f x, g x)) xs"
    by (induction xs) simp_all
  then show ?thesis by (simp add: sort_key_map comp_def)
qed

lemma rhealpix_order_valid:
  assumes "\<And>t. t \<in> set ts \<Longrightarrow> sortable t"
  shows "rhealpix_order ''auspix'' ts = Inr (map Cell_repr (sort_key sort_value ts))"
proof -
  let ?zc = "[''N'', ''O'', ''P'', ''Q'', ''R'', ''S'']"
  have a: "order_num ?zc t = Inr (order_string t)" if "t \<in> set ts" for t
    using order_num_ok [OF assms [OF that]] by (auto simp: order_string_def)
  have b: "py_int (order_string t) = Some (sort_value t)" if "t \<in> set ts" for t
    using order_num_ok [OF assms [OF that]] by (auto simp: order_string_def)
  have c: "order_back ?zc (order_string t) = Inr (Cell_repr t)"
    if "t \<in> set (sort_key sort_value ts)" for t
  proof -
    from that have "t \<in> set ts" by simp
    from order_num_ok [OF assms [OF this]] show ?thesis by (auto simp: order_string_def)
  qed
  have 1: "emap (order_num ?zc) ts = Inr (map order_string ts)" by (rule emap_Inr) (rule a)
  have 2: "those (map (py_int \<circ> order_string) ts) = Some (map sort_value ts)"
    by (rule those_map_Some) (simp add: b)
  have 3: "emap (order_back ?zc) (map order_string (sort_key sort_value ts)) =
      Inr (map Cell_repr (sort_key sort_value ts))"
    using emap_Inr [of "sort_key sort_value ts" "\<lambda>t. order_back ?zc (order_string t)" Cell_repr] c
    by (simp add: emap_map)
  show ?thesis
    by (simp add: rhealpix_order_def param_auspix 1 2 sort_zip 3)
qed

lemma those_None_mem: "None \<in> set xs \<Longrightarrow> those xs = None"
  by (induction xs) (auto split: option.splits)

lemma rhealpix_order_long:
  assumes ok: "\<And>t. t \<in> set ts \<Longrightarrow> suid_ok t" and u: "u \<in> set ts" "4300 < length u"
  shows "rhealpix_order ''auspix'' ts = Inl ValueError"
proof -
  let ?zc = "[''N'', ''O'', ''P'', ''Q'', ''R'', ''S'']"
  have a: "order_num ?zc t = Inr (order_string t) \<and> length (order_string t) = length t"
    if "t \<in> set ts" for t
    using order_num_length [OF ok [OF that]] by (auto simp: order_string_def)
  have 1: "emap (order_num ?zc) ts = Inr (map order_string ts)" by (rule emap_Inr) (simp add: a)
  have "py_int (order_string u) = None" by (rule py_int_long) (use a [OF u(1)] u(2) in simp)
  then have "None \<in> set (map (py_int \<circ> order_string) ts)" using u(1) by (force simp: image_iff)
  then have 2: "those (map (py_int \<circ> order_string) ts) = None" by (rule those_None_mem)
  show ?thesis by (simp add: rhealpix_order_def param_auspix 1 2)
qed

subsection \<open>Enumerations of sets\<close>

lemma tuple_order_set: "valid_order so \<Longrightarrow> set (tuple_order so xs) = set xs"
  by (simp add: valid_order_def)

lemma tuple_order_distinct: "valid_order so \<Longrightarrow> distinct (tuple_order so xs)"
  by (simp add: valid_order_def)

lemma str_order_set: "valid_order so \<Longrightarrow> set (str_order so xs) = set xs"
  by (simp add: valid_order_def)

lemma str_order_distinct: "valid_order so \<Longrightarrow> distinct (str_order so xs)"
  by (simp add: valid_order_def)

lemma valid_plain_order: "valid_order plain_order"
  by (simp add: valid_order_def plain_order_def)

lemma valid_longest_first: "valid_order longest_first"
  by (simp add: valid_order_def longest_first_def)



lemma tuple_order_Nil: "valid_order so \<Longrightarrow> tuple_order so [] = []"
  using tuple_order_set [of so "[]"] by simp

lemma str_order_Nil: "valid_order so \<Longrightarrow> str_order so [] = []"
  using str_order_set [of so "[]"] by simp

subsection \<open>Absorption\<close>

lemma has_anc_root:
  assumes "has_anc S t"
  shows "\<exists>a \<in> S. \<not> has_anc S a \<and> has_anc {a} t"
proof -
  from assms obtain i where i: "i < length t - 1" "take (i + 1) t \<in> S"
    by (auto simp: has_anc_def)
  define j where "j = (LEAST i. i < length t - 1 \<and> take (i + 1) t \<in> S)"
  have j: "j < length t - 1 \<and> take (j + 1) t \<in> S"
    unfolding j_def by (rule LeastI [of _ i]) (use i in simp)
  have least: "\<And>k. k < length t - 1 \<Longrightarrow> take (k + 1) t \<in> S \<Longrightarrow> j \<le> k"
    unfolding j_def by (rule Least_le) simp
  let ?a = "take (j + 1) t"
  have "\<not> has_anc S ?a"
  proof
    assume "has_anc S ?a"
    then obtain k where k: "k < length ?a - 1" "take (k + 1) ?a \<in> S"
      by (auto simp: has_anc_def)
    from k(1) j have kj: "k < j" by simp
    then have "take (k + 1) ?a = take (k + 1) t" by (simp add: min_def)
    with k(2) have "take (k + 1) t \<in> S" by simp
    moreover from kj j have "k < length t - 1" by simp
    ultimately have "j \<le> k" by (rule least [rotated])
    with kj show False by simp
  qed
  moreover have "has_anc {?a} t" using j by (auto simp: has_anc_def)
  ultimately show ?thesis using j by blast
qed

lemma has_anc_mono: "has_anc S t \<Longrightarrow> S \<subseteq> T \<Longrightarrow> has_anc T t"
  by (auto simp: has_anc_def)

lemma has_anc_remove: "has_anc (S - {t}) t = has_anc S t"
  by (auto simp: has_anc_def)

lemma prefix_neq: "k < length t - 1 \<Longrightarrow> take (k + 1) t \<noteq> t"
proof
  assume "k < length t - 1" "take (k + 1) t = t"
  then have "length (take (k + 1) t) = length t" by simp
  with \<open>k < length t - 1\<close> show False by simp
qed

lemma absorb_inner_miss:
  "\<forall>i \<in> set idxs. take (i + 1) t \<notin> set cur \<Longrightarrow>
     fold (\<lambda>i cur'. if take (i + 1) t \<in> set cur' then tuple_order so (removeAll t cur') else cur')
       idxs cur = cur"
  by (induction idxs) simp_all

lemma absorb_inner_hit:
  assumes so: "valid_order so"
  shows "\<forall>i \<in> set idxs. i < length t - 1 \<Longrightarrow> \<exists>i \<in> set idxs. take (i + 1) t \<in> set cur \<Longrightarrow>
     set (fold (\<lambda>i cur'. if take (i + 1) t \<in> set cur' then tuple_order so (removeAll t cur') else cur')
            idxs cur) = set cur - {t} \<and>
     distinct (fold (\<lambda>i cur'. if take (i + 1) t \<in> set cur' then tuple_order so (removeAll t cur') else cur')
            idxs cur)"
proof (induction idxs arbitrary: cur)
  case Nil
  then show ?case by simp
next
  case (Cons i idxs)
  let ?f = "\<lambda>i cur'. if take (i + 1) t \<in> set cur' then tuple_order so (removeAll t cur') else cur'"
  from Cons.prems(1) have rest: "\<forall>i \<in> set idxs. i < length t - 1" by simp
  show ?case
  proof (cases "take (i + 1) t \<in> set cur")
    case True
    let ?c1 = "tuple_order so (removeAll t cur)"
    have s1: "set ?c1 = set cur - {t}" and d1: "distinct ?c1"
      using so by (simp_all add: tuple_order_set tuple_order_distinct)
    have step: "fold ?f (i # idxs) cur = fold ?f idxs ?c1" using True by simp
    have "set (fold ?f idxs ?c1) = set cur - {t} \<and> distinct (fold ?f idxs ?c1)"
    proof (cases "\<exists>i \<in> set idxs. take (i + 1) t \<in> set ?c1")
      case True
      from Cons.IH [OF rest True] s1 show ?thesis by auto
    next
      case False
      then have "fold ?f idxs ?c1 = ?c1" by (intro absorb_inner_miss) simp
      with s1 d1 show ?thesis by simp
    qed
    with step show ?thesis by simp
  next
    case False
    then have step: "fold ?f (i # idxs) cur = fold ?f idxs cur" by simp
    from False Cons.prems(2) have "\<exists>i \<in> set idxs. take (i + 1) t \<in> set cur" by auto
    from Cons.IH [OF rest this] step show ?thesis by simp
  qed
qed

lemma absorb_one_miss: "\<not> has_anc (set cur) t \<Longrightarrow> absorb_one so t cur = cur"
  unfolding absorb_one_def by (rule absorb_inner_miss) (auto simp: has_anc_def)

lemma absorb_one_hit:
  assumes "valid_order so" "has_anc (set cur) t"
  shows "set (absorb_one so t cur) = set cur - {t} \<and> distinct (absorb_one so t cur)"
  unfolding absorb_one_def
  by (rule absorb_inner_hit [OF assms(1)]) (use assms(2) in \<open>auto simp: has_anc_def\<close>)

lemma absorb_fold:
  assumes so: "valid_order so"
  shows "{a \<in> S. \<not> has_anc S a} \<subseteq> set cur \<Longrightarrow> set cur \<subseteq> S \<Longrightarrow> distinct cur \<Longrightarrow>
     set (fold (absorb_one so) ts cur) = set cur - {t \<in> set ts. has_anc S t} \<and>
     distinct (fold (absorb_one so) ts cur) \<and>
     ((\<forall>t \<in> set ts. \<not> has_anc S t) \<longrightarrow> fold (absorb_one so) ts cur = cur)"
proof (induction ts arbitrary: cur)
  case Nil
  then show ?case by simp
next
  case (Cons t ts)
  have anc_iff: "has_anc (set cur) t = has_anc S t"
  proof
    assume "has_anc (set cur) t"
    then show "has_anc S t" using Cons.prems(2) by (rule has_anc_mono)
  next
    assume "has_anc S t"
    from has_anc_root [OF this] obtain a where "a \<in> S" "\<not> has_anc S a" "has_anc {a} t" by blast
    with Cons.prems(1) have "a \<in> set cur" by auto
    with \<open>has_anc {a} t\<close> show "has_anc (set cur) t" by (auto intro: has_anc_mono)
  qed
  show ?case
  proof (cases "has_anc S t")
    case True
    let ?c1 = "absorb_one so t cur"
    from absorb_one_hit [OF so] True anc_iff
    have s1: "set ?c1 = set cur - {t}" and d1: "distinct ?c1" by simp_all
    have r1: "{a \<in> S. \<not> has_anc S a} \<subseteq> set ?c1" using Cons.prems(1) True s1 by auto
    have b1: "set ?c1 \<subseteq> S" using Cons.prems(2) s1 by auto
    from Cons.IH [OF r1 b1 d1] s1 True show ?thesis by auto
  next
    case False
    then have "absorb_one so t cur = cur" using anc_iff by (simp add: absorb_one_miss)
    with Cons.IH [OF Cons.prems] False show ?thesis by auto
  qed
qed

lemma absorb_set:
  assumes "valid_order so" "distinct ss"
  shows "set (absorb so ss) = {t \<in> set ss. \<not> has_anc (set ss) t}" "distinct (absorb so ss)"
  using absorb_fold [OF assms(1), of "set ss" ss ss] assms(2)
  by (auto simp: absorb_def)

lemma absorb_id:
  assumes "valid_order so" "distinct ss" "\<forall>t \<in> set ss. \<not> has_anc (set ss) t"
  shows "absorb so ss = ss"
  using absorb_fold [OF assms(1), of "set ss" ss ss] assms(2,3)
  by (auto simp: absorb_def)

lemma absorb_antichain:
  assumes "valid_order so" "distinct ss" "t \<in> set (absorb so ss)"
  shows "\<not> has_anc (set (absorb so ss)) t"
proof
  assume "has_anc (set (absorb so ss)) t"
  then have "has_anc (set ss) t"
    by (rule has_anc_mono) (use absorb_set(1) [OF assms(1,2)] in auto)
  with assms(3) absorb_set(1) [OF assms(1,2)] show False by auto
qed

subsection \<open>Compression\<close>

lemma sda_keys: "fst ` set (setdefault_append m k v) = insert k (fst ` set m)"
  by (induction m k v rule: setdefault_append.induct) auto

lemma sda_distinct: "distinct (map fst m) \<Longrightarrow> distinct (map fst (setdefault_append m k v))"
proof (induction m k v rule: setdefault_append.induct)
  case (1 k v)
  then show ?case by simp
next
  case (2 k' vs m k v)
  then show ?case using sda_keys [of m k v] by (auto simp: image_iff)
qed

lemma sda_map_of:
  "map_of (setdefault_append m k v) =
     (map_of m)(k \<mapsto> (case map_of m k of None \<Rightarrow> [v] | Some vs \<Rightarrow> vs @ [v]))"
  by (induction m k v rule: setdefault_append.induct) (auto simp: fun_eq_iff)

lemma groups_fold:
  assumes "distinct (map fst m)"
    and "\<And>k. map_of m k = (if k \<in> butlast ` set xs then Some (filter (\<lambda>t. butlast t = k) xs) else None)"
  shows "distinct (map fst (fold (\<lambda>cell m. setdefault_append m (butlast cell) cell) ss m)) \<and>
     (\<forall>k. map_of (fold (\<lambda>cell m. setdefault_append m (butlast cell) cell) ss m) k =
        (if k \<in> butlast ` set (xs @ ss) then Some (filter (\<lambda>t. butlast t = k) (xs @ ss)) else None))"
  using assms
proof (induction ss arbitrary: m xs)
  case Nil
  then show ?case by simp
next
  case (Cons c ss)
  let ?m1 = "setdefault_append m (butlast c) c"
  have d1: "distinct (map fst ?m1)" using Cons.prems(1) by (rule sda_distinct)
  have m1: "map_of ?m1 k =
      (if k \<in> butlast ` set (xs @ [c]) then Some (filter (\<lambda>t. butlast t = k) (xs @ [c])) else None)" for k
    unfolding sda_map_of using Cons.prems(2) by (auto simp: image_iff filter_empty_conv)
  from Cons.IH [OF d1 m1] show ?case by simp
qed

lemma groups_map_of:
  "distinct (map fst (fold (\<lambda>cell m. setdefault_append m (butlast cell) cell) ss [])) \<and>
   (\<forall>k. map_of (fold (\<lambda>cell m. setdefault_append m (butlast cell) cell) ss []) k =
      (if k \<in> butlast ` set ss then Some (filter (\<lambda>t. butlast t = k) ss) else None))"
  using groups_fold [of "[]" "[]" ss] by simp

lemma compress_mem:
  "x \<in> set (rhealpix_compress ss) \<longleftrightarrow>
     (\<exists>t \<in> set ss.
        if length (filter (\<lambda>u. butlast u = butlast t) ss) = 9 then x = butlast t
        else x \<in> set ss \<and> butlast x = butlast t)"
proof -
  let ?g = "fold (\<lambda>cell m. setdefault_append m (butlast cell) cell) ss []"
  have pair: "(k, v) \<in> set ?g \<longleftrightarrow> k \<in> butlast ` set ss \<and> v = filter (\<lambda>t. butlast t = k) ss" for k v
  proof -
    have d: "distinct (map fst ?g)" using groups_map_of [of ss] by blast
    have mo: "map_of ?g k =
        (if k \<in> butlast ` set ss then Some (filter (\<lambda>t. butlast t = k) ss) else None)"
      using groups_map_of [of ss] by blast
    have "(k, v) \<in> set ?g \<longleftrightarrow> map_of ?g k = Some v"
      using map_of_eq_Some_iff [OF d] by simp
    then show ?thesis unfolding mo by auto
  qed
  have "x \<in> set (rhealpix_compress ss) \<longleftrightarrow>
      (\<exists>k v. (k, v) \<in> set ?g \<and> x \<in> set (if length v = 9 then [k] else v))"
    by (auto simp: rhealpix_compress_def Let_def split: if_splits)
  also have "\<dots> \<longleftrightarrow> (\<exists>k \<in> butlast ` set ss.
      x \<in> set (if length (filter (\<lambda>t. butlast t = k) ss) = 9 then [k]
                else filter (\<lambda>t. butlast t = k) ss))"
    unfolding pair by blast
  also have "\<dots> \<longleftrightarrow> (\<exists>t \<in> set ss.
        if length (filter (\<lambda>u. butlast u = butlast t) ss) = 9 then x = butlast t
        else x \<in> set ss \<and> butlast x = butlast t)"
    by (auto split: if_splits)
  finally show ?thesis .
qed

lemma compress_set_cong:
  assumes "distinct xs" "distinct ys" "set xs = set ys"
  shows "set (rhealpix_compress xs) = set (rhealpix_compress ys)"
proof -
  have len: "length (filter P xs) = length (filter P ys)" for P
    using assms by (simp add: distinct_length_filter)
  have "x \<in> set (rhealpix_compress xs) \<longleftrightarrow> x \<in> set (rhealpix_compress ys)" for x
    unfolding compress_mem len assms(3) by simp
  then show ?thesis by blast
qed

lemma compress_no_group:
  assumes "\<forall>t \<in> set ss. length (filter (\<lambda>u. butlast u = butlast t) ss) \<noteq> 9"
  shows "set (rhealpix_compress ss) = set ss"
  using assms by (auto simp: compress_mem)

lemma compress_nonempty: "ss \<noteq> [] \<Longrightarrow> rhealpix_compress ss \<noteq> []"
proof -
  assume "ss \<noteq> []"
  then obtain t where t: "t \<in> set ss" by (cases ss) auto
  have "\<exists>x. x \<in> set (rhealpix_compress ss)"
  proof (cases "length (filter (\<lambda>u. butlast u = butlast t) ss) = 9")
    case True
    with t have "butlast t \<in> set (rhealpix_compress ss)" unfolding compress_mem by auto
    then show ?thesis by blast
  next
    case False
    with t have "t \<in> set (rhealpix_compress ss)" unfolding compress_mem by auto
    then show ?thesis by blast
  qed
  then show ?thesis by auto
qed


subsection \<open>What the constructor returns\<close>

lemma valid_cell_eq: "valid_cell c \<Longrightarrow> cell_of (suids c) = c"
  unfolding valid_cell_def by (elim conjE) (rule sym)

lemma valid_cell_ok: "valid_cell c \<Longrightarrow> suid_ok (suids c)"
  unfolding valid_cell_def by (elim conjE)

lemma valid_cells_map:
  "list_all valid_cell cs \<Longrightarrow> map cell_of (map suids cs) = cs \<and> (\<forall>t \<in> set (map suids cs). suid_ok t)"
proof (induction cs)
  case Nil
  then show ?case by simp
next
  case (Cons c cs)
  from Cons.prems have c: "valid_cell c" and cs: "list_all valid_cell cs" by simp_all
  from Cons.IH [OF cs] valid_cell_eq [OF c] valid_cell_ok [OF c] show ?case by simp
qed

lemma emap_Inr_all: "emap f xs = Inr ys \<Longrightarrow> list_all2 (\<lambda>x y. f x = Inr y) xs ys"
  by (induction xs arbitrary: ys) (auto split: sum.splits)

lemma emap_valid_cells:
  assumes "emap (\<lambda>x. Cell_new (FromStr x)) xs = Inr cs"
  shows "list_all valid_cell cs"
proof -
  from emap_Inr_all [OF assms] have "list_all2 (\<lambda>x y. Cell_new (FromStr x) = Inr y) xs cs" .
  then show ?thesis
    by (induction rule: list_all2_induct) (auto intro: Cell_new_valid)
qed

lemma standardise_valid:
  assumes "valid_arg arg" "standardise_input arg = Inr cs"
  shows "list_all valid_cell cs"
  using assms by (cases arg) (auto intro: emap_valid_cells split: if_splits)

lemma validate_cells:
  "(\<forall>t \<in> set ts. suid_ok t) \<Longrightarrow> validate ''auspix'' ''rHEALPix'' (map cell_of ts) = Inr ()"
  by (induction ts) simp_all

lemma validate_Inr: "validate c k (x # xs) = Inr u \<Longrightarrow> c = crs x \<and> k = kind x"
  by (auto split: if_splits)

lemma py_max_map: "xs \<noteq> [] \<Longrightarrow> \<exists>m. py_max xs = Inr m"
  by (cases xs) simp_all

lemma py_min_map: "xs \<noteq> [] \<Longrightarrow> \<exists>m. py_min xs = Inr m"
  by (cases xs) simp_all

lemma pipeline_subset:
  assumes "valid_order so"
  shows "set (pipeline so z ts) \<subseteq> set (if z then rhealpix_compress ts else ts)"
    and "distinct (pipeline so z ts)"
    and "\<forall>t \<in> set (pipeline so z ts). \<not> has_anc (set (pipeline so z ts)) t"
proof -
  let ?d = "deduplicate so (if z then rhealpix_compress ts else ts)"
  have d: "distinct ?d" and s: "set ?d = set (if z then rhealpix_compress ts else ts)"
    using assms by (simp_all add: deduplicate_def tuple_order_set tuple_order_distinct)
  from absorb_set [OF assms d] s show "set (pipeline so z ts) \<subseteq> set (if z then rhealpix_compress ts else ts)"
    and "distinct (pipeline so z ts)" by (auto simp: pipeline_def)
  from absorb_antichain [OF assms d] show "\<forall>t \<in> set (pipeline so z ts). \<not> has_anc (set (pipeline so z ts)) t"
    by (auto simp: pipeline_def)
qed

lemma init_cells:
  assumes st: "standardise_input arg = Inr (map cell_of ts)" and ne: "empty_cells arg = None"
    and ok: "\<forall>t \<in> set (pipeline so z ts). sortable t" and pne: "pipeline so z ts \<noteq> []"
    and ca: "or_else ca ''auspix'' = ''auspix''" and ka: "or_else ka ''rHEALPix'' = ''rHEALPix''"
    and tsok: "\<forall>t \<in> set ts. suid_ok t" and tne: "ts \<noteq> []"
  shows "CellCollection_init so arg ca ka z = Inr (collection_of (sort_key sort_value (pipeline so z ts)))"
proof -
  let ?P = "pipeline so z ts"
  let ?P' = "sort_key sort_value ?P"
  from tne obtain t0 tr where ts: "ts = t0 # tr" by (cases ts) auto
  have st': "standardise_input arg = Inr (cell_of t0 # map cell_of tr)" using st ts by simp
  have val: "validate ''auspix'' ''rHEALPix'' (cell_of t0 # map cell_of tr) = Inr ()"
    using validate_cells [OF tsok] ts by simp
  have sm: "map suids (cell_of t0 # map cell_of tr) = ts" unfolding ts by (simp add: comp_def)
  have cmp: "(if z then compress ''rHEALPix'' ts else Inr ts) = Inr (if z then rhealpix_compress ts else ts)"
    by (simp add: compress_def)
  have ord: "order ''rHEALPix'' ''auspix'' ?P = Inr (map Cell_repr ?P')"
    using rhealpix_order_valid [of ?P] ok by (simp add: order_def)
  have ok': "\<forall>t \<in> set ?P'. suid_ok t" using ok by (simp add: sortable_def)
  have cells: "emap (\<lambda>suid. Cell_new (FromStr suid)) (map Cell_repr ?P') = Inr (map cell_of ?P')"
    unfolding emap_map by (rule emap_Inr) (use ok' in \<open>simp add: Cell_new_repr\<close>)
  have res: "map resolution (map cell_of ?P') = map (\<lambda>t. int (length t) - 1) ?P'"
    by (simp add: comp_def)
  have "length ?P' = length ?P" by simp
  with pne have "?P' \<noteq> []" by (metis length_0_conv)
  then have pne': "map (\<lambda>t. int (length t) - 1) ?P' \<noteq> []" by simp
  from py_max_map [OF pne'] obtain mx where mx: "py_max (map (\<lambda>t. int (length t) - 1) ?P') = Inr mx"
    by blast
  from py_min_map [OF pne'] obtain mn where mn: "py_min (map (\<lambda>t. int (length t) - 1) ?P') = Inr mn"
    by blast
  have pd: "absorb so (deduplicate so (if z then rhealpix_compress ts else ts)) = ?P"
    by (simp add: pipeline_def)
  have cr: "crs (cell_of t0) = ''auspix''" "kind (cell_of t0) = ''rHEALPix''" by simp_all
  show ?thesis
    unfolding CellCollection_init_def ne st' Let_def option.case sum.case list.case cr ca ka val sm
      cmp pd ord cells res mx mn collection_of_def
    by (rule refl)
qed

lemma init_order_raises:
  assumes st: "standardise_input arg = Inr (map cell_of ts)" and ne: "empty_cells arg = None"
    and ca: "or_else ca ''auspix'' = ''auspix''" and ka: "or_else ka ''rHEALPix'' = ''rHEALPix''"
    and tsok: "\<forall>t \<in> set ts. suid_ok t" and tne: "ts \<noteq> []"
    and ord: "order ''rHEALPix'' ''auspix'' (pipeline so z ts) = Inl e"
  shows "CellCollection_init so arg ca ka z = Inl e"
proof -
  from tne obtain t0 tr where ts: "ts = t0 # tr" by (cases ts) auto
  have st': "standardise_input arg = Inr (cell_of t0 # map cell_of tr)" using st ts by simp
  have val: "validate ''auspix'' ''rHEALPix'' (cell_of t0 # map cell_of tr) = Inr ()"
    using validate_cells [OF tsok] ts by simp
  have sm: "map suids (cell_of t0 # map cell_of tr) = ts" unfolding ts by (simp add: comp_def)
  have cmp: "(if z then compress ''rHEALPix'' ts else Inr ts) = Inr (if z then rhealpix_compress ts else ts)"
    by (simp add: compress_def)
  have pd: "absorb so (deduplicate so (if z then rhealpix_compress ts else ts)) = pipeline so z ts"
    by (simp add: pipeline_def)
  have cr: "crs (cell_of t0) = ''auspix''" "kind (cell_of t0) = ''rHEALPix''" by simp_all
  show ?thesis
    unfolding CellCollection_init_def ne st' Let_def option.case sum.case list.case cr ca ka val sm
      cmp pd ord
    by (rule refl)
qed

lemma absorb_nonempty:
  assumes "valid_order so" "distinct ss" "ss \<noteq> []"
  shows "absorb so ss \<noteq> []"
proof -
  from assms(3) obtain a where a: "a \<in> set ss" by (cases ss) auto
  have "\<exists>r \<in> set ss. \<not> has_anc (set ss) r"
  proof (cases "has_anc (set ss) a")
    case True
    from has_anc_root [OF this] show ?thesis by blast
  next
    case False
    with a show ?thesis by blast
  qed
  then have "set (absorb so ss) \<noteq> {}" unfolding absorb_set(1) [OF assms(1,2)] by blast
  then show ?thesis by auto
qed

lemma pipeline_nonempty:
  assumes "valid_order so" "ts \<noteq> []"
  shows "pipeline so z ts \<noteq> []"
proof -
  let ?s = "if z then rhealpix_compress ts else ts"
  have "?s \<noteq> []" using assms(2) compress_nonempty by simp
  then have "set (deduplicate so ?s) \<noteq> {}"
    using assms(1) by (simp add: deduplicate_def tuple_order_set)
  then have "deduplicate so ?s \<noteq> []" by auto
  moreover have "distinct (deduplicate so ?s)"
    using assms(1) by (simp add: deduplicate_def tuple_order_distinct)
  ultimately show ?thesis unfolding pipeline_def by (rule absorb_nonempty [OF assms(1), rotated])
qed

lemma butlast_ok: "suid_ok t \<Longrightarrow> butlast t = [] \<or> suid_ok (butlast t)"
proof -
  assume "suid_ok t"
  then obtain l ks where t: "t = Label l # map Num ks" and l: "face_ok l" and ks: "digits_ok ks"
    unfolding suid_ok_iff by blast
  show ?thesis
  proof (cases "ks = []")
    case True
    then show ?thesis using t by simp
  next
    case False
    have "digits_ok (butlast ks)" using ks by (auto simp: digits_ok_def list_all_iff dest: in_set_butlastD)
    moreover have "butlast t = Label l # map Num (butlast ks)" using t False by (simp add: map_butlast)
    ultimately show ?thesis using l suid_okI by simp
  qed
qed

lemma compress_ok_or_nil:
  assumes "\<forall>t \<in> set ts. suid_ok t" "x \<in> set (rhealpix_compress ts)"
  shows "x = [] \<or> suid_ok x"
proof -
  from assms(2) obtain t where t: "t \<in> set ts" and
    c: "if length (filter (\<lambda>u. butlast u = butlast t) ts) = 9 then x = butlast t
        else x \<in> set ts \<and> butlast x = butlast t"
    unfolding compress_mem by blast
  show ?thesis
  proof (cases "length (filter (\<lambda>u. butlast u = butlast t) ts) = 9")
    case True
    with c have "x = butlast t" by simp
    with butlast_ok [of t] assms(1) t show ?thesis by auto
  next
    case False
    with c assms(1) show ?thesis by auto
  qed
qed

lemma butlast_nil_face: "suid_ok u \<Longrightarrow> butlast u = [] \<Longrightarrow> u \<in> (\<lambda>l. [Label l]) ` set [''N'', ''O'', ''P'', ''Q'', ''R'', ''S'']"
proof -
  assume "suid_ok u" and b: "butlast u = []"
  then obtain l ks where t: "u = Label l # map Num ks" and l: "face_ok l"
    unfolding suid_ok_iff by blast
  from b t have "ks = []" by (cases ks) auto
  with t l show ?thesis by (auto simp: face_ok_def)
qed

lemma compress_distinct_ok:
  assumes ok: "\<forall>t \<in> set ts. suid_ok t" and d: "distinct ts" and x: "x \<in> set (rhealpix_compress ts)"
  shows "suid_ok x"
proof -
  let ?F = "filter (\<lambda>u. butlast u = []) ts"
  have "set ?F \<subseteq> (\<lambda>l. [Label l]) ` set [''N'', ''O'', ''P'', ''Q'', ''R'', ''S'']"
    using ok butlast_nil_face by auto
  then have "card (set ?F) \<le> card ((\<lambda>l. [Label l]) ` set [''N'', ''O'', ''P'', ''Q'', ''R'', ''S''])"
    by (intro card_mono) simp_all
  also have "\<dots> \<le> card (set [''N'', ''O'', ''P'', ''Q'', ''R'', ''S''])" by (rule card_image_le) simp
  also have "\<dots> \<le> length [''N'', ''O'', ''P'', ''Q'', ''R'', ''S'']" by (rule card_length)
  finally have "card (set ?F) \<le> 6" by simp
  moreover have "distinct ?F" using d by (rule distinct_filter)
  then have "length ?F = card (set ?F)" by (rule distinct_card [symmetric])
  ultimately have len: "length ?F \<noteq> 9" by simp
  have "x \<noteq> []"
  proof
    assume "x = []"
    with x obtain t where t: "t \<in> set ts" and
      c: "if length (filter (\<lambda>u. butlast u = butlast t) ts) = 9 then [] = butlast t
          else [] \<in> set ts \<and> butlast [] = butlast t"
      unfolding compress_mem by blast
    have "[] \<notin> set ts" using ok by (auto simp: suid_ok_iff)
    with c have "length (filter (\<lambda>u. butlast u = butlast t) ts) = 9" "butlast t = []"
      by (auto split: if_splits)
    with len show False by simp
  qed
  with compress_ok_or_nil [OF ok x] show ?thesis by simp
qed

lemma pipeline_distinct_ok:
  assumes "valid_order so" "\<forall>t \<in> set ts. suid_ok t" "distinct ts"
  shows "\<forall>t \<in> set (pipeline so z ts). suid_ok t"
proof
  fix t assume "t \<in> set (pipeline so z ts)"
  with pipeline_subset(1) [OF assms(1)] have "t \<in> set (if z then rhealpix_compress ts else ts)" by blast
  then show "suid_ok t" using assms(2) compress_distinct_ok [OF assms(2,3)] by (auto split: if_splits)
qed

lemma pipeline_short:
  assumes "valid_order so" "\<forall>t \<in> set ts. length t \<le> n"
  shows "\<forall>t \<in> set (pipeline so z ts). length t \<le> n"
proof
  fix x assume "x \<in> set (pipeline so z ts)"
  with pipeline_subset(1) [OF assms(1)] have x: "x \<in> set (if z then rhealpix_compress ts else ts)"
    by blast
  show "length x \<le> n"
  proof (cases "x \<in> set ts")
    case True
    with assms(2) show ?thesis by simp
  next
    case False
    with x have "x \<in> set (rhealpix_compress ts)" by (simp split: if_splits)
    with False obtain t where t: "t \<in> set ts" "x = butlast t"
      unfolding compress_mem by (auto split: if_splits)
    with assms(2) have "length t \<le> n" by simp
    with t(2) show ?thesis by simp
  qed
qed

lemma pipeline_distinct_sortable:
  assumes "valid_order so" "\<forall>t \<in> set ts. sortable t" "distinct ts"
  shows "\<forall>t \<in> set (pipeline so z ts). sortable t"
proof -
  from assms(2) have ok: "\<forall>t \<in> set ts. suid_ok t" and le: "\<forall>t \<in> set ts. length t \<le> 4300"
    by (simp_all add: sortable_def)
  from pipeline_distinct_ok [OF assms(1) ok assms(3), of z] pipeline_short [OF assms(1) le, of z]
  show ?thesis by (simp add: sortable_def)
qed

lemma order_num_Nil: "order_num zc [] = Inl IndexError"
  by (simp add: order_num_def)

lemma emap_Inr_mem: "emap f xs = Inr ys \<Longrightarrow> x \<in> set xs \<Longrightarrow> \<exists>y \<in> set ys. f x = Inr y"
  by (induction xs arbitrary: ys) (auto split: sum.splits)

lemma those_Some_mem: "those xs = Some ys \<Longrightarrow> x \<in> set xs \<Longrightarrow> \<exists>v. x = Some v"
  by (induction xs arbitrary: ys) (auto split: option.splits)

lemma order_Inr_short:
  assumes "order k c P = Inr strs" "t \<in> set P" "suid_ok t"
  shows "length t \<le> 4300"
proof -
  let ?zc = "[''N'', ''O'', ''P'', ''Q'', ''R'', ''S'']"
  from assms(1) have r: "rhealpix_order c P = Inr strs"
    by (auto simp: order_def split: if_splits)
  from r obtain p where p: "parametrisations c = Some p"
    by (auto simp: rhealpix_order_def split: option.splits)
  from param_cases [OF p] have zc: "zero_cells p = ?zc" by simp
  from r p obtain nums where nums: "emap (order_num ?zc) P = Inr nums"
    unfolding zc [symmetric] by (auto simp: rhealpix_order_def split: sum.splits)
  from r p nums obtain keys where keys: "those (map py_int nums) = Some keys"
    by (auto simp: rhealpix_order_def zc split: option.splits)
  from emap_Inr_mem [OF nums assms(2)] obtain n where n: "n \<in> set nums" "order_num ?zc t = Inr n"
    by blast
  from n(1) have "py_int n \<in> set (map py_int nums)" by simp
  from those_Some_mem [OF keys this] obtain v where "py_int n = Some v" by blast
  then have "length n \<le> 4300" by (rule py_int_Some_short)
  moreover from order_num_length [OF assms(3)] n(2) have "length n = length t" by simp
  ultimately show ?thesis by simp
qed

lemma emap_Inr_each: "emap f xs = Inr ys \<Longrightarrow> x \<in> set xs \<Longrightarrow> \<exists>y. f x = Inr y"
  by (induction xs arbitrary: ys) (auto split: sum.splits)

lemma order_Inr_nonnil:
  assumes "order k c P = Inr strs"
  shows "[] \<notin> set P \<and> k = ''rHEALPix'' \<and> c = ''auspix''"
proof -
  from assms have k: "k = ''rHEALPix''" and r: "rhealpix_order c P = Inr strs"
    by (auto simp: order_def split: if_splits)
  from r obtain p where p: "parametrisations c = Some p"
    by (auto simp: rhealpix_order_def split: option.splits)
  from r p obtain nums where "emap (order_num (zero_cells p)) P = Inr nums"
    by (auto simp: rhealpix_order_def split: sum.splits)
  have "[] \<notin> set P"
  proof
    assume "[] \<in> set P"
    from emap_Inr_each [OF \<open>emap (order_num (zero_cells p)) P = Inr nums\<close> this]
    show False by (simp add: order_num_Nil)
  qed
  with k param_cases [OF p] show ?thesis by simp
qed

lemma init_empty: "empty_cells arg = Some e \<Longrightarrow> CellCollection_init so arg ca ka z = Inr (empty_collection e)"
  by (simp add: CellCollection_init_def)

lemma init_Inr:
  assumes ok: "CellCollection_init so arg ca ka z = Inr S" and va: "valid_arg arg"
    and so: "valid_order so" and ne: "empty_cells arg = None"
  shows "\<exists>ts. ts \<noteq> [] \<and> (\<forall>t \<in> set ts. suid_ok t) \<and> standardise_input arg = Inr (map cell_of ts) \<and>
           (\<forall>t \<in> set (pipeline so z ts). sortable t) \<and> pipeline so z ts \<noteq> [] \<and>
           S = collection_of (sort_key sort_value (pipeline so z ts))"
proof -
  from ok ne obtain c0 rest where st: "standardise_input arg = Inr (c0 # rest)"
    by (cases "standardise_input arg")
       (auto simp: CellCollection_init_def split: list.splits)
  from standardise_valid [OF va st] have vc: "list_all valid_cell (c0 # rest)" .
  define ts where "ts = map suids (c0 # rest)"
  from valid_cells_map [OF vc] have cs: "map cell_of ts = c0 # rest" and tsok: "\<forall>t \<in> set ts. suid_ok t"
    unfolding ts_def by simp_all
  have tne: "ts \<noteq> []" unfolding ts_def by simp
  have c0: "crs c0 = ''auspix''" "kind c0 = ''rHEALPix''"
    using vc valid_cell_eq [of c0] crs_cell_of [of "suids c0"] kind_cell_of [of "suids c0"] by simp_all
  define c' where "c' = or_else ca ''auspix''"
  define k' where "k' = or_else ka ''rHEALPix''"
  define ss1 where "ss1 = (if z then compress k' ts else Inr ts)"
  have unf: "CellCollection_init so arg ca ka z =
    (case validate c' k' (c0 # rest) of
        Inl e \<Rightarrow> Inl e
      | Inr _ \<Rightarrow>
     (case ss1 of
        Inl e \<Rightarrow> Inl e
      | Inr ss1 \<Rightarrow>
     (case order k' c' (absorb so (deduplicate so ss1)) of
        Inl e \<Rightarrow> Inl e
      | Inr strs \<Rightarrow>
     (case emap (\<lambda>suid. Cell_new (FromStr suid)) strs of
        Inl e \<Rightarrow> Inl e
      | Inr cs \<Rightarrow>
     (case py_max (map resolution cs) of
        Inl e \<Rightarrow> Inl e
      | Inr mx \<Rightarrow>
     (case py_min (map resolution cs) of
        Inl e \<Rightarrow> Inl e
      | Inr mn \<Rightarrow>
          Inr \<lparr>cells = Some cs, cc_crs = Some c', cc_kind = Some k', cc_suids = strs,
               max_resolution = Some mx, min_resolution = Some mn,
               cc_wkt = Some (''CELLLIST (('' @ join_space strs @ ''))'')\<rparr>))))))"
    unfolding CellCollection_init_def ne st Let_def option.case sum.case list.case c0 c'_def k'_def
      ss1_def ts_def
    by (rule refl)
  from ok [unfolded unf] obtain u where val: "validate c' k' (c0 # rest) = Inr u"
    by (cases "validate c' k' (c0 # rest)") simp_all
  from validate_Inr [OF val] c0 have ck: "c' = ''auspix''" "k' = ''rHEALPix''" by simp_all
  have ss1: "ss1 = Inr (if z then rhealpix_compress ts else ts)"
    unfolding ss1_def ck by (simp add: compress_def)
  from ok [unfolded unf val ss1 sum.case] obtain strs where
    ord: "order k' c' (pipeline so z ts) = Inr strs"
    unfolding pipeline_def
    by (cases "order k' c' (absorb so (deduplicate so (if z then rhealpix_compress ts else ts)))") simp_all
  from order_Inr_nonnil [OF ord] have nonnil: "[] \<notin> set (pipeline so z ts)" by simp
  have pok: "\<forall>t \<in> set (pipeline so z ts). sortable t"
  proof
    fix t assume t: "t \<in> set (pipeline so z ts)"
    with pipeline_subset(1) [OF so] have "t \<in> set (if z then rhealpix_compress ts else ts)" by blast
    then have "t = [] \<or> suid_ok t" using tsok compress_ok_or_nil [OF tsok] by (auto split: if_splits)
    with nonnil t have "suid_ok t" by auto
    with order_Inr_short [OF ord t] show "sortable t" by (simp add: sortable_def)
  qed
  have pne: "pipeline so z ts \<noteq> []" by (rule pipeline_nonempty [OF so tne])
  have "CellCollection_init so arg ca ka z = Inr (collection_of (sort_key sort_value (pipeline so z ts)))"
    by (rule init_cells [OF _ ne pok pne _ _ tsok tne])
       (use st cs ck in \<open>simp_all add: c'_def k'_def\<close>)
  with ok have "S = collection_of (sort_key sort_value (pipeline so z ts))" by simp
  with tne tsok st cs pok pne show ?thesis by (intro exI [of _ ts]) simp
qed

lemma built_cases:
  assumes "built S"
  shows "(\<exists>e. S = empty_collection e) \<or>
         (\<exists>P. P \<noteq> [] \<and> (\<forall>t \<in> set P. suid_ok t) \<and> (\<forall>t \<in> set P. length t \<le> 4300) \<and>
              distinct P \<and> (\<forall>t \<in> set P. \<not> has_anc (set P) t) \<and> sorted (map sort_value P) \<and>
              S = collection_of P)"
proof -
  from assms obtain so arg c k z where so: "valid_order so" and va: "valid_arg arg"
    and ok: "CellCollection_init so arg c k z = Inr S"
    unfolding built_def by blast
  show ?thesis
  proof (cases "empty_cells arg")
    case (Some e)
    from init_empty [OF Some, of so c k z] ok show ?thesis by auto
  next
    case None
    from init_Inr [OF ok va so None] obtain ts where
      pok: "\<forall>t \<in> set (pipeline so z ts). sortable t" and pne: "pipeline so z ts \<noteq> []"
      and S: "S = collection_of (sort_key sort_value (pipeline so z ts))" by blast
    let ?P = "sort_key sort_value (pipeline so z ts)"
    have "length ?P = length (pipeline so z ts)" by simp
    with pne have "?P \<noteq> []" by (metis length_0_conv)
    moreover have "\<forall>t \<in> set ?P. suid_ok t" using pok by (simp add: sortable_def)
    moreover have "\<forall>t \<in> set ?P. length t \<le> 4300" using pok by (simp add: sortable_def)
    moreover have "distinct ?P" using pipeline_subset(2) [OF so, of z ts] by simp
    moreover have "\<forall>t \<in> set ?P. \<not> has_anc (set ?P) t"
      using pipeline_subset(3) [OF so, of z ts] by simp
    moreover have "sorted (map sort_value ?P)" by (rule sorted_sort_key)
    ultimately show ?thesis using S by blast
  qed
qed

subsection \<open>Children of a cell and their compression\<close>

lemma sort_unique:
  assumes dx: "distinct xs" and s: "set xs = set ys" and so: "sorted (map f ys)"
    and dy: "distinct (map f ys)"
  shows "sort_key f xs = ys"
proof -
  have inj: "inj_on f (set ys)" using dy by (simp add: distinct_map)
  have "distinct (sort_key f xs)" using dx by simp
  then have d1: "distinct (map f (sort_key f xs))" using inj s by (simp add: distinct_map)
  have s1: "sorted (map f (sort_key f xs))" by (rule sorted_sort_key)
  have e1: "set (map f (sort_key f xs)) = set (map f ys)" using s by simp
  have "map f (sort_key f xs) = map f ys"
    by (rule sorted_distinct_set_unique [OF s1 d1 so dy e1])
  moreover have "inj_on f (set (sort_key f xs) \<union> set ys)" using inj s by simp
  ultimately show ?thesis by (simp add: inj_on_map_eq_map)
qed

lemma upt9: "map int [0..<3 ^ 2] = [0, 1, 2, 3, 4, 5, 6, 7, 8]"
  by (simp add: upt_rec)

lemma repr_snoc: "Cell_repr (t @ [Num j]) = Cell_repr t @ str_int j"
  by (simp add: Cell_repr_def)

lemma suid_ok_snoc: "suid_ok t \<Longrightarrow> 0 \<le> j \<Longrightarrow> j < 9 \<Longrightarrow> suid_ok (t @ [Num j])"
proof -
  assume "suid_ok t" and j: "0 \<le> j" "j < 9"
  then obtain l ks where t: "t = Label l # map Num ks" and l: "face_ok l" and ks: "digits_ok ks"
    unfolding suid_ok_iff by blast
  have "digits_ok (ks @ [j])" using ks j by (simp add: digits_ok_def)
  from suid_okI [OF l this] show ?thesis unfolding t by simp
qed

lemma sort_value_snoc:
  assumes "suid_ok t" "0 \<le> j" "j < 9" "length t < 4300"
  shows "sort_value (t @ [Num j]) = 10 * sort_value t + j"
proof -
  let ?zc = "[''N'', ''O'', ''P'', ''Q'', ''R'', ''S'']"
  from assms(1) obtain l ks where t: "t = Label l # map Num ks" and l: "face_ok l" and ks: "digits_ok ks"
    unfolding suid_ok_iff by blast
  have ks': "digits_ok (ks @ [j])" using ks assms(2,3) by (simp add: digits_ok_def)
  have len: "length ks < 4300" and len': "length (ks @ [j]) < 4300" using assms(4) unfolding t by simp_all
  from order_num_valid [OF l ks len] obtain i where i: "i < 6" "?zc ! i = l"
    "sort_value (Label l # map Num ks) = foldl (\<lambda>a d. 10 * a + d) (int i) ks" by blast
  from order_num_valid [OF l ks' len'] obtain i' where i': "i' < 6" "?zc ! i' = l"
    "sort_value (Label l # map Num (ks @ [j])) = foldl (\<lambda>a d. 10 * a + d) (int i') (ks @ [j])" by blast
  have "distinct ?zc" by simp
  then have "i = i'" using i(1,2) i'(1,2) nth_eq_iff_index_eq [of ?zc i i'] by simp
  with i(3) i'(3) show ?thesis unfolding t by simp
qed

text \<open>The nine immediate children of a suid, in the order of their last digit.\<close>

lemma kids_props:
  assumes t: "suid_ok t"
  defines "kids \<equiv> map (\<lambda>j. t @ [Num j]) [0, 1, 2, 3, 4, 5, 6, 7, 8]"
  shows "\<forall>x \<in> set kids. suid_ok x" "distinct kids"
    "\<forall>x \<in> set kids. butlast x = t" "length kids = 9"
    "\<forall>x \<in> set kids. length x = length t + 1"
    "map Cell_repr kids = map (\<lambda>c. Cell_repr t @ [c]) ''012345678''"
proof -
  show "\<forall>x \<in> set kids. suid_ok x" unfolding kids_def using suid_ok_snoc [OF t] by auto
  show "distinct kids" unfolding kids_def by simp
  show "\<forall>x \<in> set kids. butlast x = t" unfolding kids_def by simp
  show "length kids = 9" unfolding kids_def by simp
  show "\<forall>x \<in> set kids. length x = length t + 1" unfolding kids_def by simp
  show "map Cell_repr kids = map (\<lambda>c. Cell_repr t @ [c]) ''012345678''"
    unfolding kids_def by (simp add: repr_snoc str_int_def str_nat.simps)
qed

text \<open>Below 4300 elements the ordering step accepts the children, and keeps their order.\<close>

lemma kids_sorted:
  assumes t: "suid_ok t" and len: "length t < 4300"
  defines "kids \<equiv> map (\<lambda>j. t @ [Num j]) [0, 1, 2, 3, 4, 5, 6, 7, 8]"
  shows "sorted (map sort_value kids)" "distinct (map sort_value kids)"
    "\<forall>x \<in> set kids. sortable x"
proof -
  have sv: "map sort_value kids = map (\<lambda>j. 10 * sort_value t + j) [0, 1, 2, 3, 4, 5, 6, 7, 8]"
    unfolding kids_def using sort_value_snoc [OF t _ _ len] by simp
  show "sorted (map sort_value kids)" unfolding sv by simp
  show "distinct (map sort_value kids)" unfolding sv by simp
  show "\<forall>x \<in> set kids. sortable x"
    unfolding kids_def sortable_def using suid_ok_snoc [OF t] len by auto
qed

lemma standardise_SuidList:
  assumes "ts \<noteq> []" "\<forall>t \<in> set ts. suid_ok t"
  shows "standardise_input (SuidList (map Cell_repr ts)) = Inr (map cell_of ts)"
    "empty_cells (SuidList (map Cell_repr ts)) = None"
proof -
  have "emap (\<lambda>cell_str. Cell_new (FromStr cell_str)) (map Cell_repr ts) = Inr (map cell_of ts)"
    unfolding emap_map by (rule emap_Inr) (use assms(2) in \<open>simp add: Cell_new_repr\<close>)
  then show "standardise_input (SuidList (map Cell_repr ts)) = Inr (map cell_of ts)"
    using assms(1) by simp
  show "empty_cells (SuidList (map Cell_repr ts)) = None" using assms(1) by simp
qed

lemma standardise_CellList:
  assumes "ts \<noteq> []"
  shows "standardise_input (CellList (map cell_of ts)) = Inr (map cell_of ts)"
    "empty_cells (CellList (map cell_of ts)) = None"
  using assms by simp_all

lemma or_else_None: "or_else None d = d"
  by (simp add: or_else_def)

lemma same_length_no_anc:
  assumes "\<forall>x \<in> S. length x = n" "t \<in> S"
  shows "\<not> has_anc S t"
proof
  assume "has_anc S t"
  then obtain i where i: "i < length t - 1" "take (i + 1) t \<in> S" by (auto simp: has_anc_def)
  with assms have "length (take (i + 1) t) = n" "length t = n" by auto
  then have "min (i + 1) n = n" by simp
  with i(1) \<open>length t = n\<close> show False by simp
qed

lemma children_collection:
  assumes t: "suid_ok t" and so: "valid_order so" and len: "length t < 4300"
  shows "Cell_children so (cell_of t) None =
     Inr (ACollection (collection_of (map (\<lambda>j. t @ [Num j]) [0, 1, 2, 3, 4, 5, 6, 7, 8])))"
proof -
  define kids where "kids = map (\<lambda>j. t @ [Num j]) [0, 1, 2, 3, 4, 5, 6, 7, 8 :: int]"
  note kp = kids_props [OF t, folded kids_def]
  note ks = kids_sorted [OF t len, folded kids_def]
  have kne: "kids \<noteq> []" using kp(4) by auto
  let ?L = "deduplicate so kids"
  have Ls: "set ?L = set kids" and Ld: "distinct ?L"
    using so by (simp_all add: deduplicate_def tuple_order_set tuple_order_distinct)
  have "\<forall>x \<in> set ?L. \<not> has_anc (set ?L) x"
    using same_length_no_anc [of "set ?L" "length t + 1"] kp(5) Ls by simp
  then have pl: "pipeline so False kids = ?L"
    unfolding pipeline_def using absorb_id [OF so Ld] by simp
  have srt: "sort_key sort_value ?L = kids" by (rule sort_unique [OF Ld Ls ks(1) ks(2)])
  have pok: "\<forall>x \<in> set (pipeline so False kids). sortable x" unfolding pl Ls by (rule ks(3))
  have pne: "pipeline so False kids \<noteq> []" by (rule pipeline_nonempty [OF so kne])
  have init: "CellCollection_init so (SuidList (map Cell_repr kids)) None None False =
      Inr (collection_of kids)"
    using init_cells [OF standardise_SuidList [OF kne kp(1)] pok pne or_else_None or_else_None kp(1) kne]
    unfolding pl srt .
  have tuples: "map (\<lambda>i. Cell_repr (suids (cell_of t)) @ concat (map str_int i))
       (product_lists (replicate (nat 1) (map int [0..<Nside (cell_of t) ^ 2]))) = map Cell_repr kids"
    unfolding kids_def by (simp add: cell_of_def upt_rec repr_snoc)
  show ?thesis
    unfolding Cell_children_def Let_def option.case tuples init kids_def [symmetric]
    by simp
qed

text \<open>
  From 4300 elements on, the children have more than 4300 digits and the ordering step
  raises.
\<close>

lemma children_too_deep:
  assumes t: "suid_ok t" and so: "valid_order so" and len: "4300 \<le> length t"
  shows "Cell_children so (cell_of t) None = Inl ValueError"
proof -
  define kids where "kids = map (\<lambda>j. t @ [Num j]) [0, 1, 2, 3, 4, 5, 6, 7, 8 :: int]"
  note kp = kids_props [OF t, folded kids_def]
  have kne: "kids \<noteq> []" using kp(4) by auto
  let ?L = "deduplicate so kids"
  have Ls: "set ?L = set kids" and Ld: "distinct ?L"
    using so by (simp_all add: deduplicate_def tuple_order_set tuple_order_distinct)
  have "\<forall>x \<in> set ?L. \<not> has_anc (set ?L) x"
    using same_length_no_anc [of "set ?L" "length t + 1"] kp(5) Ls by simp
  then have pl: "pipeline so False kids = ?L"
    unfolding pipeline_def using absorb_id [OF so Ld] by simp
  have okL: "suid_ok x" if "x \<in> set ?L" for x using kp(1) Ls that by simp
  from kne obtain u where "u \<in> set kids" by (cases kids) auto
  with kp(5) len Ls have u: "u \<in> set ?L" "4300 < length u" by simp_all
  have ord: "order ''rHEALPix'' ''auspix'' (pipeline so False kids) = Inl ValueError"
    unfolding pl by (simp add: order_def rhealpix_order_long [OF okL u])
  have init: "CellCollection_init so (SuidList (map Cell_repr kids)) None None False = Inl ValueError"
    by (rule init_order_raises [OF standardise_SuidList [OF kne kp(1)] or_else_None or_else_None
          kp(1) kne ord])
  have tuples: "map (\<lambda>i. Cell_repr (suids (cell_of t)) @ concat (map str_int i))
       (product_lists (replicate (nat 1) (map int [0..<Nside (cell_of t) ^ 2]))) = map Cell_repr kids"
    unfolding kids_def by (simp add: cell_of_def upt_rec repr_snoc)
  show ?thesis
    unfolding Cell_children_def Let_def option.case tuples init
    by simp
qed






subsection \<open>The canonical list depends on the set of suids only\<close>

lemma pipeline_set:
  assumes "valid_order so"
  shows "set (pipeline so z ts) =
     {t \<in> set (if z then rhealpix_compress ts else ts).
        \<not> has_anc (set (if z then rhealpix_compress ts else ts)) t}"
proof -
  let ?d = "deduplicate so (if z then rhealpix_compress ts else ts)"
  have d: "distinct ?d" and s: "set ?d = set (if z then rhealpix_compress ts else ts)"
    using assms by (simp_all add: deduplicate_def tuple_order_set tuple_order_distinct)
  from absorb_set(1) [OF assms d] show ?thesis unfolding pipeline_def s .
qed

lemma pipeline_set_indep:
  assumes "valid_order so" "valid_order so'" "distinct ts" "distinct ts'" "set ts = set ts'"
  shows "set (pipeline so z ts) = set (pipeline so' z ts')"
proof -
  have "set (if z then rhealpix_compress ts else ts) = set (if z then rhealpix_compress ts' else ts')"
    using compress_set_cong [OF assms(3,4,5)] assms(5) by simp
  then show ?thesis unfolding pipeline_set [OF assms(1)] pipeline_set [OF assms(2)] by simp
qed

lemma sorted_indep:
  assumes "distinct xs" "distinct ys" "set xs = set ys" "distinct (map f (sort_key f xs))"
  shows "sort_key f xs = sort_key f ys"
proof -
  have "sort_key f ys = sort_key f xs"
    by (rule sort_unique [OF assms(2)]) (use assms in \<open>simp_all add: sorted_sort_key\<close>)
  then show ?thesis by simp
qed

lemma canon_indep:
  assumes "valid_order so" "valid_order so'" "distinct ts" "distinct ts'" "set ts = set ts'"
  shows "set (sort_key sort_value (pipeline so z ts)) = set (sort_key sort_value (pipeline so' z ts'))"
    and "distinct (map sort_value (sort_key sort_value (pipeline so z ts))) \<Longrightarrow>
         sort_key sort_value (pipeline so z ts) = sort_key sort_value (pipeline so' z ts')"
proof -
  note s = pipeline_set_indep [OF assms, of z]
  show "set (sort_key sort_value (pipeline so z ts)) = set (sort_key sort_value (pipeline so' z ts'))"
    using s by simp
  assume "distinct (map sort_value (sort_key sort_value (pipeline so z ts)))"
  then show "sort_key sort_value (pipeline so z ts) = sort_key sort_value (pipeline so' z ts')"
    by (intro sorted_indep pipeline_subset(2) assms(1,2) s)
qed

subsection \<open>Suid strings and suid tuples\<close>

lemma str_sort_value_repr: "suid_ok t \<Longrightarrow> str_sort_value (Cell_repr t) = sort_value t"
  by (simp add: str_sort_value_def parse_repr_ok)

lemma distinct_sort_values_repr:
  assumes "\<forall>t \<in> set ts. suid_ok t"
  shows "distinct_sort_values (map Cell_repr ts) = distinct (map sort_value ts)"
proof -
  have "map str_sort_value (map Cell_repr ts) = map sort_value ts"
    unfolding map_map by (rule map_cong) (use assms in \<open>simp_all add: str_sort_value_repr\<close>)
  then show ?thesis unfolding distinct_sort_values_def by (rule arg_cong)
qed

text \<open>Every element of a valid suid prints as one character.\<close>

lemma repr_length: "suid_ok t \<Longrightarrow> length (Cell_repr t) = length t"
proof -
  assume "suid_ok t"
  then obtain l ks where t: "t = Label l # map Num ks" and l: "face_ok l" and ks: "digits_ok ks"
    unfolding suid_ok_iff by blast
  have "length (concat (map str_int ks)) = length ks" using ks
  proof (induction ks)
    case Nil
    then show ?case by simp
  next
    case (Cons k ks)
    then have "0 \<le> k" "k < 9" "digits_ok ks" by (simp_all add: digits_ok_def)
    with Cons.IH show ?case by (simp add: str_int_digit)
  qed
  with face_single [OF l] show ?thesis unfolding t repr_digits by auto
qed

lemma take_ok: "suid_ok t \<Longrightarrow> 0 < n \<Longrightarrow> suid_ok (take n t)"
proof -
  assume "suid_ok t" and n: "0 < n"
  then obtain l ks where t: "t = Label l # map Num ks" and l: "face_ok l" and ks: "digits_ok ks"
    unfolding suid_ok_iff by blast
  from n obtain m where m: "n = Suc m" by (cases n) auto
  have "digits_ok (take m ks)" using ks by (auto simp: digits_ok_def list_all_iff dest: in_set_takeD)
  from suid_okI [OF l this] show ?thesis unfolding t m by (simp add: take_map)
qed

lemma repr_append: "Cell_repr (xs @ ys) = Cell_repr xs @ Cell_repr ys"
  by (simp add: Cell_repr_def)

lemma repr_butlast:
  assumes "suid_ok t"
  shows "butlast (Cell_repr t) = Cell_repr (butlast t)"
proof -
  from assms have ne: "t \<noteq> []" by (auto simp: suid_ok_iff)
  then have t: "t = butlast t @ [last t]" by simp
  have "length (Cell_repr [last t]) = 1"
  proof -
    from assms obtain l ks where tt: "t = Label l # map Num ks" and l: "face_ok l" and ks: "digits_ok ks"
      unfolding suid_ok_iff by blast
    show ?thesis
    proof (cases "ks = []")
      case True
      with tt face_single [OF l] show ?thesis by (auto simp: Cell_repr_def)
    next
      case False
      then have "last t = Num (last ks)" unfolding tt by (simp add: last_map)
      moreover have "0 \<le> last ks \<and> last ks < 9"
        using ks False by (auto simp: digits_ok_def list_all_iff)
      ultimately show ?thesis by (simp add: Cell_repr_def str_int_digit)
    qed
  qed
  then obtain ch where "Cell_repr [last t] = [ch]"
    by (cases "Cell_repr [last t]") auto
  then have "Cell_repr t = Cell_repr (butlast t) @ [ch]"
    using t repr_append [of "butlast t" "[last t]"] by simp
  then show ?thesis by simp
qed

lemma repr_ok_or_nil_inj:
  assumes "t = [] \<or> suid_ok t" "u = [] \<or> suid_ok u" "Cell_repr t = Cell_repr u"
  shows "t = u"
proof -
  have nz: "Cell_repr x \<noteq> []" if "suid_ok x" for x
    using repr_length [OF that] that by (auto simp: suid_ok_iff)
  have z: "Cell_repr [] = []" by (simp add: Cell_repr_def)
  show ?thesis
    using assms nz [of t] nz [of u] z repr_inj [of t u] by auto
qed

lemma butlast_repr_eq:
  assumes "suid_ok t" "suid_ok u"
  shows "butlast (Cell_repr u) = butlast (Cell_repr t) \<longleftrightarrow> butlast u = butlast t"
proof -
  have "Cell_repr (butlast u) = Cell_repr (butlast t) \<longleftrightarrow> butlast u = butlast t"
    using repr_ok_or_nil_inj [OF butlast_ok [OF assms(2)] butlast_ok [OF assms(1)]] by auto
  then show ?thesis unfolding repr_butlast [OF assms(1)] repr_butlast [OF assms(2)] .
qed

lemma nine_siblings_repr:
  assumes ok: "\<forall>t \<in> set ts. suid_ok t"
  shows "nine_siblings (map Cell_repr ts) \<longleftrightarrow>
     (\<exists>t \<in> set ts. length (filter (\<lambda>u. butlast u = butlast t) ts) = 9)"
proof -
  have "length (filter (\<lambda>y. butlast y = butlast (Cell_repr t)) (map Cell_repr ts)) =
        length (filter (\<lambda>u. butlast u = butlast t) ts)" if "t \<in> set ts" for t
  proof -
    have "filter (\<lambda>u. butlast (Cell_repr u) = butlast (Cell_repr t)) ts =
          filter (\<lambda>u. butlast u = butlast t) ts"
      by (rule filter_cong) (use ok that butlast_repr_eq in auto)
    then show ?thesis by (simp add: filter_map comp_def)
  qed
  then show ?thesis by (auto simp: nine_siblings_def list_ex_iff)
qed

text \<open>A list of suid strings that are the renderings of valid suids is the rendering of a list.\<close>

lemma strings_as_tuples:
  assumes "set xs \<subseteq> Cell_repr ` V" "\<forall>t \<in> V. suid_ok t" "distinct xs"
  shows "\<exists>ts. xs = map Cell_repr ts \<and> set ts \<subseteq> V \<and> distinct ts \<and>
           Cell_repr ` set ts = set xs"
proof -
  define g where "g x = (case suid_from_str x of Inl e \<Rightarrow> [] | Inr t \<Rightarrow> t)" for x
  have g: "g (Cell_repr t) = t" if "t \<in> V" for t
    using assms(2) that by (simp add: g_def parse_repr_ok)
  let ?ts = "map g xs"
  have each: "Cell_repr (g x) = x \<and> g x \<in> V" if "x \<in> set xs" for x
    using assms(1) that g by auto
  have 1: "map Cell_repr ?ts = xs" unfolding map_map comp_def by (rule map_idI) (simp add: each)
  have 2: "set ?ts \<subseteq> V" using each by auto
  have "distinct (map Cell_repr ?ts)" unfolding 1 by (rule assms(3))
  then have 3: "distinct ?ts" by (simp only: distinct_map)
  have 4: "Cell_repr ` set ?ts = set xs" using 1 by (metis set_map)
  from 1 2 3 4 show ?thesis by (intro exI [of _ ?ts]) simp
qed

subsection \<open>Union\<close>

lemma built_tuples:
  assumes "built S"
  shows "\<exists>A. cc_suids S = map Cell_repr A \<and> (\<forall>t \<in> set A. suid_ok t) \<and>
           (\<forall>t \<in> set A. length t \<le> 4300) \<and> distinct A \<and>
           (\<forall>t \<in> set A. \<not> has_anc (set A) t) \<and> sorted (map sort_value A) \<and>
           (if A = [] then \<exists>e. S = empty_collection e else S = collection_of A)"
proof -
  from built_cases [OF assms] show ?thesis
  proof (elim disjE exE conjE)
    fix e assume "S = empty_collection e"
    then show ?thesis by (intro exI [of _ "[]"]) (auto simp: empty_collection_def)
  next
    fix P assume "P \<noteq> []" "\<forall>t \<in> set P. suid_ok t" "\<forall>t \<in> set P. length t \<le> 4300" "distinct P"
      "\<forall>t \<in> set P. \<not> has_anc (set P) t" "sorted (map sort_value P)" "S = collection_of P"
    then show ?thesis by (intro exI [of _ P]) (simp add: collection_of_def)
  qed
qed

lemma matches_empty: "matches S (ACollection (empty_collection e)) = Inr ()"
  by (simp add: matches_def empty_collection_def truthy_def)

lemma matches_built:
  assumes "built S" "built T"
  shows "matches S (ACollection T) = Inr ()"
proof -
  have c: "(\<exists>e. X = empty_collection e) \<or> (\<exists>P. X = collection_of P)" if "built X" for X
    using built_cases [OF that] by blast
  from c [OF assms(1)] c [OF assms(2)] show ?thesis
    by (auto simp: matches_def empty_collection_def collection_of_def truthy_def)
qed

lemma add_tuples:
  assumes so: "valid_order so"
    and A: "cc_suids S = map Cell_repr A" and B: "cc_suids T = map Cell_repr B"
    and ok: "\<forall>t \<in> set A \<union> set B. suid_ok t"
    and sh: "\<forall>t \<in> set A \<union> set B. length t \<le> 4300"
    and m: "matches S (ACollection T) = Inr ()"
  shows "\<exists>ts. distinct ts \<and> set ts = set A \<union> set B \<and>
           CellCollection_add so S (ACollection T) z =
             Inr (if ts = [] then empty_collection (Some [])
                  else collection_of (sort_key sort_value (pipeline so z ts)))"
proof -
  let ?xs = "str_order so (cc_suids S @ cc_suids T)"
  have xs_set: "set ?xs = Cell_repr ` (set A \<union> set B)" and xs_d: "distinct ?xs"
    using so A B by (auto simp: str_order_set str_order_distinct)
  from strings_as_tuples [of ?xs "set A \<union> set B"] xs_set xs_d ok
  obtain ts where ts: "?xs = map Cell_repr ts" "set ts \<subseteq> set A \<union> set B" "distinct ts"
    "Cell_repr ` set ts = set ?xs" by auto
  have inj: "inj_on Cell_repr (set A \<union> set B)"
    by (rule inj_on_subset [OF repr_inj_on]) (use ok in auto)
  have "set ts = set A \<union> set B"
    using inj_on_image_eq_iff [OF inj ts(2) subset_refl] ts(4) xs_set by simp
  note tset = this
  have tok: "\<forall>t \<in> set ts. suid_ok t" using ok tset by simp
  have tso: "\<forall>t \<in> set ts. sortable t" using ok sh tset by (simp add: sortable_def)
  have add: "CellCollection_add so S (ACollection T) z =
      CellCollection_init so (SuidList (map Cell_repr ts)) None None z"
    by (simp add: CellCollection_add_def m ts(1))
  have "CellCollection_init so (SuidList (map Cell_repr ts)) None None z =
      Inr (if ts = [] then empty_collection (Some [])
           else collection_of (sort_key sort_value (pipeline so z ts)))"
  proof (cases "ts = []")
    case True
    then show ?thesis by (simp add: CellCollection_init_def)
  next
    case False
    have pok: "\<forall>t \<in> set (pipeline so z ts). sortable t"
      by (rule pipeline_distinct_sortable [OF so tso ts(3)])
    have pne: "pipeline so z ts \<noteq> []" by (rule pipeline_nonempty [OF so False])
    from init_cells [OF standardise_SuidList [OF False tok] pok pne or_else_None or_else_None tok False]
    show ?thesis using False by simp
  qed
  with add ts(3) tset show ?thesis by (intro exI [of _ ts]) simp
qed

lemma antichain_pipeline:
  assumes so: "valid_order so" and d: "distinct ts"
    and anti: "\<forall>t \<in> set ts. \<not> has_anc (set ts) t"
    and nine: "\<not> (\<exists>t \<in> set ts. length (filter (\<lambda>u. butlast u = butlast t) ts) = 9)"
  shows "set (pipeline so True ts) = set ts"
proof -
  have "set (rhealpix_compress ts) = set ts" by (rule compress_no_group) (use nine in blast)
  then show ?thesis unfolding pipeline_set [OF so] using anti by auto
qed

lemma filter_length_perm:
  assumes "distinct xs" "distinct ys" "set xs = set ys"
  shows "length (filter Q xs) = length (filter Q ys)"
  using assms by (simp add: distinct_length_filter)

lemma empty_collection_repr: "CellCollection_repr (empty_collection e) = ''Empty CellCollection''"
  by (simp add: CellCollection_repr_def empty_collection_def)

lemma add_empty_same:
  assumes S: "built S" and so: "valid_order so"
    and nine: "\<not> nine_siblings (cc_suids S)" and dv: "distinct_sort_values (cc_suids S)"
  shows "\<exists>R. CellCollection_add so S (ACollection (empty_collection e)) True = Inr R \<and>
           CellCollection_eq R (ACollection S)"
proof -
  from built_tuples [OF S] obtain A where A: "cc_suids S = map Cell_repr A"
    and ok: "\<forall>t \<in> set A. suid_ok t" and sh: "\<forall>t \<in> set A. length t \<le> 4300" and dA: "distinct A"
    and anti: "\<forall>t \<in> set A. \<not> has_anc (set A) t" and srt: "sorted (map sort_value A)"
    and shape: "if A = [] then \<exists>e. S = empty_collection e else S = collection_of A"
    by blast
  have B: "cc_suids (empty_collection e) = map Cell_repr []" by (simp add: empty_collection_def)
  from add_tuples [OF so A B _ _ matches_empty, of True] ok sh
  obtain ts where ts: "distinct ts" "set ts = set A"
    and add: "CellCollection_add so S (ACollection (empty_collection e)) True =
       Inr (if ts = [] then empty_collection (Some [])
            else collection_of (sort_key sort_value (pipeline so True ts)))"
    by auto
  show ?thesis
  proof (cases "A = []")
    case True
    with ts(2) have "ts = []" by simp
    moreover from True shape obtain e' where "S = empty_collection e'" by auto
    ultimately show ?thesis using add
      by (simp add: CellCollection_eq_def empty_collection_repr)
  next
    case False
    with ts(2) have tne: "ts \<noteq> []" by auto
    from False shape have SA: "S = collection_of A" by simp
    have nine': "\<not> (\<exists>t \<in> set ts. length (filter (\<lambda>u. butlast u = butlast t) ts) = 9)"
      using nine unfolding A nine_siblings_repr [OF ok] ts(2)
      using filter_length_perm [OF ts(1) dA ts(2)] by simp
    have anti': "\<forall>t \<in> set ts. \<not> has_anc (set ts) t" using anti ts(2) by simp
    have ps: "set (pipeline so True ts) = set A"
      using antichain_pipeline [OF so ts(1) anti' nine'] ts(2) by simp
    have dsv: "distinct (map sort_value A)"
      using dv unfolding A distinct_sort_values_repr [OF ok] .
    have "sort_key sort_value (pipeline so True ts) = A"
      by (rule sort_unique [OF pipeline_subset(2) [OF so] ps srt dsv])
    with add tne SA have "CellCollection_add so S (ACollection (empty_collection e)) True = Inr S"
      by simp
    then show ?thesis by (simp add: CellCollection_eq_def)
  qed
qed

lemma add_commutes:
  assumes S: "built S" and T: "built T" and so: "valid_order so"
  shows "\<exists>R R'. CellCollection_add so S (ACollection T) z = Inr R \<and>
           CellCollection_add so T (ACollection S) z = Inr R' \<and>
           set (cc_suids R) = set (cc_suids R') \<and>
           (distinct_sort_values (cc_suids R) \<longrightarrow> CellCollection_eq R (ACollection R'))"
proof -
  from built_tuples [OF S] obtain A where A: "cc_suids S = map Cell_repr A"
    and okA: "\<forall>t \<in> set A. suid_ok t" and shA: "\<forall>t \<in> set A. length t \<le> 4300" by blast
  from built_tuples [OF T] obtain B where B: "cc_suids T = map Cell_repr B"
    and okB: "\<forall>t \<in> set B. suid_ok t" and shB: "\<forall>t \<in> set B. length t \<le> 4300" by blast
  have ok: "\<forall>t \<in> set A \<union> set B. suid_ok t" using okA okB by auto
  have ok': "\<forall>t \<in> set B \<union> set A. suid_ok t" using okA okB by auto
  have sh: "\<forall>t \<in> set A \<union> set B. length t \<le> 4300" using shA shB by auto
  have sh': "\<forall>t \<in> set B \<union> set A. length t \<le> 4300" using shA shB by auto
  from add_tuples [OF so A B ok sh matches_built [OF S T], of z]
  obtain ts where ts: "distinct ts" "set ts = set A \<union> set B"
    and add: "CellCollection_add so S (ACollection T) z =
       Inr (if ts = [] then empty_collection (Some [])
            else collection_of (sort_key sort_value (pipeline so z ts)))"
    by blast
  from add_tuples [OF so B A ok' sh' matches_built [OF T S], of z]
  obtain ts' where ts': "distinct ts'" "set ts' = set B \<union> set A"
    and add': "CellCollection_add so T (ACollection S) z =
       Inr (if ts' = [] then empty_collection (Some [])
            else collection_of (sort_key sort_value (pipeline so z ts')))"
    by blast
  have same: "set ts = set ts'" using ts(2) ts'(2) by auto
  show ?thesis
  proof (cases "ts = []")
    case True
    with same have "ts' = []" by simp
    with True add add' show ?thesis
      by (intro exI [of _ "empty_collection (Some [])"])
         (simp add: CellCollection_eq_def)
  next
    case False
    with same have ne': "ts' \<noteq> []" by auto
    let ?P = "sort_key sort_value (pipeline so z ts)"
    let ?P' = "sort_key sort_value (pipeline so z ts')"
    note ci = canon_indep [OF so so ts(1) ts'(1) same, of z]
    have pok: "\<forall>t \<in> set ?P. suid_ok t"
      using pipeline_distinct_ok [OF so _ ts(1), of z] ok ts(2) by simp
    have sets: "set (cc_suids (collection_of ?P)) = set (cc_suids (collection_of ?P'))"
      using ci(1) by (simp add: collection_of_def)
    have eq: "distinct_sort_values (cc_suids (collection_of ?P)) \<longrightarrow>
        CellCollection_eq (collection_of ?P) (ACollection (collection_of ?P'))"
    proof
      assume "distinct_sort_values (cc_suids (collection_of ?P))"
      then have "distinct_sort_values (map Cell_repr ?P)" by (simp add: collection_of_def)
      then have "distinct (map sort_value ?P)" unfolding distinct_sort_values_repr [OF pok] .
      from ci(2) [OF this] show "CellCollection_eq (collection_of ?P) (ACollection (collection_of ?P'))"
        by (simp add: CellCollection_eq_def)
    qed
    show ?thesis
      using add add' False ne' sets eq
      by (intro exI [of _ "collection_of ?P"] exI [of _ "collection_of ?P'"]) simp
  qed
qed


text \<open>
  Claim C6 says that \<open>S + empty\<close> equals \<open>S\<close> for every CellCollection, and that
  \<open>S + T\<close> equals \<open>T + S\<close>. The union is rebuilt by the constructor with
  compression: the collection that \<^verbatim>\<open>Cell("P").children()\<close> returns holds \<^verbatim>\<open>P0\<close> to
  \<^verbatim>\<open>P8\<close>, and adding the empty collection to it gives \<^verbatim>\<open>P\<close>. The ordering step
  sorts \<^verbatim>\<open>N1\<close> and \<^verbatim>\<open>N01\<close> by the same integer 1 and keeps them in the order in
  which the set of the union happened to list them: with an enumeration that follows
  the order of insertion, \<^verbatim>\<open>N1 + N01\<close> renders \<^verbatim>\<open>N1 N01\<close> and \<^verbatim>\<open>N01 + N1\<close>
  renders \<^verbatim>\<open>N01 N1\<close>.
\<close>

theorem union_laws_fail:
  "CellCollection_init plain_order
     (SuidList [''P0'', ''P1'', ''P2'', ''P3'', ''P4'', ''P5'', ''P6'', ''P7'', ''P8''])
     None None False =
     Inr (collection_of (map (\<lambda>j. [Label ''P'', Num j]) [0, 1, 2, 3, 4, 5, 6, 7, 8])) \<and>
   CellCollection_add plain_order
     (collection_of (map (\<lambda>j. [Label ''P'', Num j]) [0, 1, 2, 3, 4, 5, 6, 7, 8]))
     (ACollection (empty_collection None)) True = Inr (collection_of [[Label ''P'']]) \<and>
   \<not> CellCollection_eq (collection_of [[Label ''P'']])
       (ACollection (collection_of (map (\<lambda>j. [Label ''P'', Num j]) [0, 1, 2, 3, 4, 5, 6, 7, 8]))) \<and>
   CellCollection_new plain_order (SuidString ''N1'') = Inr (collection_of [[Label ''N'', Num 1]]) \<and>
   CellCollection_new plain_order (SuidString ''N01'') =
     Inr (collection_of [[Label ''N'', Num 0, Num 1]]) \<and>
   map_sum id CellCollection_repr
     (CellCollection_add plain_order (collection_of [[Label ''N'', Num 1]])
        (ACollection (collection_of [[Label ''N'', Num 0, Num 1]])) True) = Inr ''N1 N01'' \<and>
   map_sum id CellCollection_repr
     (CellCollection_add plain_order (collection_of [[Label ''N'', Num 0, Num 1]])
        (ACollection (collection_of [[Label ''N'', Num 1]])) True) = Inr ''N01 N1''"
  by code_simp

text \<open>
  Claim C6, amended. For every CellCollection \<open>S\<close> that holds no nine suids with a
  common parent and no two suids with the same integer sort value, \<open>S + empty\<close> equals
  \<open>S\<close>. For every two CellCollections \<open>S\<close> and \<open>T\<close>, \<open>S + T\<close> and \<open>T + S\<close> hold
  the same set of suids, and they are equal (their renderings are the same) when no two
  suids of \<open>S + T\<close> have the same integer sort value. This holds for every valid
  enumeration of sets.
\<close>

theorem union_identity_commutativity:
  assumes "built S" and "built T" and "valid_order so"
  shows "(\<not> nine_siblings (cc_suids S) \<and> distinct_sort_values (cc_suids S) \<longrightarrow>
            (\<exists>R. CellCollection_add so S (ACollection (empty_collection e)) True = Inr R \<and>
                 CellCollection_eq R (ACollection S))) \<and>
         (\<exists>R R'. CellCollection_add so S (ACollection T) z = Inr R \<and>
                 CellCollection_add so T (ACollection S) z = Inr R' \<and>
                 set (cc_suids R) = set (cc_suids R') \<and>
                 (distinct_sort_values (cc_suids R) \<longrightarrow> CellCollection_eq R (ACollection R')))"
  using add_empty_same [OF assms(1,3)] add_commutes [OF assms] by blast

theorem union_identity_commutativity_witness:
  "built (collection_of [[Label ''Q''], [Label ''P'', Num 1]]) \<and>
   built (collection_of [[Label ''N'', Num 1], [Label ''P'']]) \<and>
   valid_order plain_order \<and>
   \<not> nine_siblings (cc_suids (collection_of [[Label ''Q''], [Label ''P'', Num 1]])) \<and>
   distinct_sort_values (cc_suids (collection_of [[Label ''Q''], [Label ''P'', Num 1]])) \<and>
   (\<exists>R. CellCollection_add plain_order (collection_of [[Label ''Q''], [Label ''P'', Num 1]])
           (ACollection (empty_collection None)) True = Inr R \<and>
        CellCollection_eq R (ACollection (collection_of [[Label ''Q''], [Label ''P'', Num 1]]))) \<and>
   (\<exists>R R'. CellCollection_add plain_order (collection_of [[Label ''Q''], [Label ''P'', Num 1]])
              (ACollection (collection_of [[Label ''N'', Num 1], [Label ''P'']])) True = Inr R \<and>
           CellCollection_add plain_order (collection_of [[Label ''N'', Num 1], [Label ''P'']])
              (ACollection (collection_of [[Label ''Q''], [Label ''P'', Num 1]])) True = Inr R' \<and>
           set (cc_suids R) = set (cc_suids R') \<and>
           distinct_sort_values (cc_suids R) \<and> CellCollection_eq R (ACollection R'))"
proof -
  let ?S = "collection_of [[Label ''Q''], [Label ''P'', Num 1]]"
  let ?T = "collection_of [[Label ''N'', Num 1], [Label ''P'']]"
  let ?U = "collection_of [[Label ''N'', Num 1], [Label ''P''], [Label ''Q'']]"
  have iS: "CellCollection_init plain_order (SuidString ''P1 Q'') None None True = Inr ?S"
    by code_simp
  have iT: "CellCollection_init plain_order (SuidString ''N1 P'') None None True = Inr ?T"
    by code_simp
  have bS: "built ?S" unfolding built_def
    by (intro exI [of _ plain_order] exI [of _ "SuidString ''P1 Q''"] exI [of _ None] exI [of _ True])
       (simp add: valid_plain_order iS)
  have bT: "built ?T" unfolding built_def
    by (intro exI [of _ plain_order] exI [of _ "SuidString ''N1 P''"] exI [of _ None] exI [of _ True])
       (simp add: valid_plain_order iT)
  have n: "\<not> nine_siblings (cc_suids ?S)" by code_simp
  have d: "distinct_sort_values (cc_suids ?S)" by code_simp
  have u: "CellCollection_add plain_order ?S (ACollection ?T) True = Inr ?U" by code_simp
  have du: "distinct_sort_values (cc_suids ?U)" by code_simp
  note inst = union_identity_commutativity [OF bS bT valid_plain_order, of None True]
  from inst n d have p1: "\<exists>R. CellCollection_add plain_order ?S (ACollection (empty_collection None)) True = Inr R \<and>
      CellCollection_eq R (ACollection ?S)" by blast
  from inst obtain R R' where r: "CellCollection_add plain_order ?S (ACollection ?T) True = Inr R"
    "CellCollection_add plain_order ?T (ACollection ?S) True = Inr R'"
    "set (cc_suids R) = set (cc_suids R')"
    "distinct_sort_values (cc_suids R) \<longrightarrow> CellCollection_eq R (ACollection R')" by blast
  from r(1) u have "R = ?U" by simp
  with du r have p2: "\<exists>R R'. CellCollection_add plain_order ?S (ACollection ?T) True = Inr R \<and>
           CellCollection_add plain_order ?T (ACollection ?S) True = Inr R' \<and>
           set (cc_suids R) = set (cc_suids R') \<and>
           distinct_sort_values (cc_suids R) \<and> CellCollection_eq R (ACollection R')" by blast
  from bS bT valid_plain_order n d p1 p2 show ?thesis by blast
qed

subsection \<open>Difference of a collection and itself\<close>

lemma built_empty_cells:
  assumes "built S" "cc_suids S = []"
  shows "S = empty_collection None \<or> S = empty_collection (Some [])"
proof -
  from assms(1) obtain so arg c k z where so: "valid_order so" and va: "valid_arg arg"
    and ok: "CellCollection_init so arg c k z = Inr S"
    unfolding built_def by blast
  show ?thesis
  proof (cases "empty_cells arg")
    case (Some e)
    then have "e = None \<or> e = Some []" by (cases arg) (auto split: if_splits)
    with init_empty [OF Some, of so c k z] ok show ?thesis by auto
  next
    case None
    from init_Inr [OF ok va so None] obtain ts where
      "pipeline so z ts \<noteq> []" "S = collection_of (sort_key sort_value (pipeline so z ts))" by blast
    then have "length (cc_suids S) = length (pipeline so z ts)" by (simp add: collection_of_def)
    with assms(2) \<open>pipeline so z ts \<noteq> []\<close> show ?thesis by simp
  qed
qed

lemma prefix_has_anc:
  assumes "prefix t u" "t \<noteq> u" "t \<noteq> []" "t \<in> S"
  shows "has_anc S u"
proof -
  from assms(1) obtain r where u: "u = t @ r" by (auto simp: prefix_def)
  with assms(2) have r: "r \<noteq> []" by auto
  have "length t - 1 < length u - 1" using u r assms(3) by (cases t) auto
  moreover have "take (length t - 1 + 1) u = t" using u assms(3) by (cases t) auto
  ultimately show ?thesis using assms(4) unfolding has_anc_def by (intro exI [of _ "length t - 1"]) simp
qed

lemma overlaps_antichain:
  assumes "t \<in> S" "u \<in> S" "t \<noteq> []" "u \<noteq> []" "\<not> has_anc S t" "\<not> has_anc S u"
  shows "Cell_overlaps (cell_of t) (cell_of u) \<longleftrightarrow> t = u"
proof
  assume "Cell_overlaps (cell_of t) (cell_of u)"
  then have "prefix t u \<or> prefix u t" by (simp add: Cell_overlaps_def zip_agree_iff_prefix)
  then show "t = u"
    using prefix_has_anc [of t u S] prefix_has_anc [of u t S] assms by auto
next
  assume "t = u"
  then show "Cell_overlaps (cell_of t) (cell_of u)"
    by (simp add: Cell_overlaps_def zip_agree_iff_prefix)
qed

lemma intersect_inner_self:
  assumes over: "\<forall>u \<in> set us. Cell_overlaps (cell_of t) (cell_of u) \<longleftrightarrow> t = u"
  shows "\<exists>acc'. for_each (\<lambda>cell_two. intersect_pair recurse so (cell_of t) cell_two)
                   (map cell_of us) acc = Some (Inr acc') \<and>
           set (cells_to_retain acc') \<subseteq> set (cells_to_retain acc) \<union> {t} \<and>
           set (cells_to_remove acc') = set (cells_to_remove acc) \<union> ({t} \<inter> set us)"
  using over
proof (induction us arbitrary: acc)
  case Nil
  then show ?case by auto
next
  case (Cons u us)
  let ?body = "\<lambda>cell_two. intersect_pair recurse so (cell_of t) cell_two"
  from Cons.prems have rest: "\<forall>u \<in> set us. Cell_overlaps (cell_of t) (cell_of u) \<longleftrightarrow> t = u"
    and u: "Cell_overlaps (cell_of t) (cell_of u) \<longleftrightarrow> t = u" by simp_all
  show ?case
  proof (cases "t = u")
    case True
    let ?a1 = "acc\<lparr>cells_to_remove := cells_to_remove acc @ [t]\<rparr>"
    have step: "?body (cell_of u) acc = Some (Inr ?a1)"
      using True u by (simp add: intersect_pair_def)
    from Cons.IH [OF rest, of ?a1] obtain acc' where
      "for_each ?body (map cell_of us) ?a1 = Some (Inr acc')"
      "set (cells_to_retain acc') \<subseteq> set (cells_to_retain ?a1) \<union> {t}"
      "set (cells_to_remove acc') = set (cells_to_remove ?a1) \<union> ({t} \<inter> set us)" by blast
    with step True show ?thesis by (intro exI [of _ acc']) auto
  next
    case False
    let ?a1 = "acc\<lparr>cells_to_retain := cells_to_retain acc @ [t]\<rparr>"
    have step: "?body (cell_of u) acc = Some (Inr ?a1)"
      using False u by (simp add: intersect_pair_def)
    from Cons.IH [OF rest, of ?a1] obtain acc' where
      "for_each ?body (map cell_of us) ?a1 = Some (Inr acc')"
      "set (cells_to_retain acc') \<subseteq> set (cells_to_retain ?a1) \<union> {t}"
      "set (cells_to_remove acc') = set (cells_to_remove ?a1) \<union> ({t} \<inter> set us)" by blast
    with step False show ?thesis by (intro exI [of _ acc']) auto
  qed
qed

lemma intersect_outer_self:
  assumes over: "\<forall>t \<in> set ts. \<forall>u \<in> set us. Cell_overlaps (cell_of t) (cell_of u) \<longleftrightarrow> t = u"
    and sub: "set ts \<subseteq> set us"
  shows "\<exists>acc'. for_each (\<lambda>cell_one.
                    for_each (\<lambda>cell_two. intersect_pair recurse so cell_one cell_two) (map cell_of us))
                   (map cell_of ts) acc = Some (Inr acc') \<and>
           set (cells_to_retain acc') \<subseteq> set (cells_to_retain acc) \<union> set ts \<and>
           set (cells_to_remove acc') = set (cells_to_remove acc) \<union> set ts"
  using over sub
proof (induction ts arbitrary: acc)
  case Nil
  then show ?case by simp
next
  case (Cons t ts)
  let ?inner = "\<lambda>cell_one. for_each (\<lambda>cell_two. intersect_pair recurse so cell_one cell_two) (map cell_of us)"
  from Cons.prems have t: "\<forall>u \<in> set us. Cell_overlaps (cell_of t) (cell_of u) \<longleftrightarrow> t = u"
    and rest: "\<forall>t \<in> set ts. \<forall>u \<in> set us. Cell_overlaps (cell_of t) (cell_of u) \<longleftrightarrow> t = u"
    and tin: "t \<in> set us" and sub': "set ts \<subseteq> set us" by simp_all
  from intersect_inner_self [OF t, of recurse so acc] obtain a1 where a1:
    "?inner (cell_of t) acc = Some (Inr a1)"
    "set (cells_to_retain a1) \<subseteq> set (cells_to_retain acc) \<union> {t}"
    "set (cells_to_remove a1) = set (cells_to_remove acc) \<union> ({t} \<inter> set us)" by blast
  from Cons.IH [OF rest sub', of a1] obtain acc' where
    "for_each ?inner (map cell_of ts) a1 = Some (Inr acc')"
    "set (cells_to_retain acc') \<subseteq> set (cells_to_retain a1) \<union> set ts"
    "set (cells_to_remove acc') = set (cells_to_remove a1) \<union> set ts" by blast
  with a1 tin show ?case by (intro exI [of _ acc']) auto
qed

lemma sub_self_collection:
  assumes so: "valid_order so" and ok: "\<forall>t \<in> set P. suid_ok t"
    and anti: "\<forall>t \<in> set P. \<not> has_anc (set P) t"
  shows "CellCollection_sub (Suc n) so (collection_of P) (ACollection (collection_of P)) z =
     Some (Inr (empty_collection (Some [])))"
proof -
  let ?acc0 = "\<lparr>cells_to_retain = [], cells_to_remove = []\<rparr>"
  have ne: "\<forall>t \<in> set P. t \<noteq> []" using ok by (auto simp: suid_ok_iff)
  have over: "\<forall>t \<in> set P. \<forall>u \<in> set P. Cell_overlaps (cell_of t) (cell_of u) \<longleftrightarrow> t = u"
    using overlaps_antichain [of _ "set P"] ne anti by blast
  from intersect_outer_self [OF over subset_refl, of "progressively_intersect n so" so ?acc0]
  obtain acc where acc:
    "progressively_intersect (Suc n) so (map cell_of P) (map cell_of P) ?acc0 = Some (Inr acc)"
    "set (cells_to_retain acc) \<subseteq> set P" "set (cells_to_remove acc) = set P" by auto
  have "filter (\<lambda>t. t \<notin> set (cells_to_remove acc)) (cells_to_retain acc) = []"
    using acc(2,3) by (auto simp: filter_empty_conv)
  then have overall: "tuple_order so (filter (\<lambda>t. t \<notin> set (cells_to_remove acc)) (cells_to_retain acc)) = []"
    by (simp add: tuple_order_Nil [OF so])
  have fin: "CellCollection_init so (CellList []) None None z = Inr (empty_collection (Some []))"
    by (simp add: CellCollection_init_def)
  show ?thesis
  proof (cases P)
    case Nil
    then show ?thesis
      unfolding CellCollection_sub_def
      by (simp add: collection_of_def tuple_order_Nil [OF so] fin)
  next
    case (Cons p ps)
    have c: "cells (collection_of P) = Some (cell_of p # map cell_of ps)"
      unfolding Cons by (simp add: collection_of_def)
    have acc': "progressively_intersect (Suc n) so (cell_of p # map cell_of ps) (cell_of p # map cell_of ps) ?acc0 =
        Some (Inr acc)" using acc(1) unfolding Cons by simp
    show ?thesis
      unfolding CellCollection_sub_def validate_other.simps sum.case c option.case list.case acc'
        Let_def overall
      by (simp add: fin)
  qed
qed

text \<open>
  Claim C1 says that \<open>S - S\<close> is the empty collection for every CellCollection \<open>S\<close>.
  The collection that \<^verbatim>\<open>CellCollection()\<close> returns keeps \<^verbatim>\<open>None\<close> as its cells, and
  \<^verbatim>\<open>__sub__\<close> iterates over the cells: the difference of that collection and itself
  raises a TypeError, whatever the fuel, the enumeration and the compression flag.
\<close>

theorem self_difference_of_default_collection:
  "CellCollection_init so NoCells c k z = Inr (empty_collection None) \<and>
   CellCollection_sub fuel so (empty_collection None) (ACollection (empty_collection None)) z' =
     Some (Inl TypeError)"
  by (simp add: CellCollection_init_def CellCollection_sub_def empty_collection_def)

text \<open>
  Every other collection behaves as claim C1 says: when the cells of a CellCollection
  \<open>S\<close> are a list (empty or not), \<open>S - S\<close> returns, without descending into any
  children, the empty collection, of length 0 and rendered \<^verbatim>\<open>Empty CellCollection\<close>.
\<close>

theorem self_difference_empty:
  assumes "built S" and "cells S \<noteq> None" and "valid_order so"
  shows "CellCollection_sub (Suc n) so S (ACollection S) z = Some (Inr (empty_collection (Some []))) \<and>
         CellCollection_len (empty_collection (Some [])) = 0 \<and>
         CellCollection_repr (empty_collection (Some [])) = ''Empty CellCollection''"
proof -
  from built_tuples [OF assms(1)] obtain A where A: "cc_suids S = map Cell_repr A"
    and ok: "\<forall>t \<in> set A. suid_ok t" and anti: "\<forall>t \<in> set A. \<not> has_anc (set A) t"
    and shape: "if A = [] then \<exists>e. S = empty_collection e else S = collection_of A"
    by blast
  have "CellCollection_sub (Suc n) so S (ACollection S) z = Some (Inr (empty_collection (Some [])))"
  proof (cases "A = []")
    case True
    with A have "cc_suids S = []" by simp
    from built_empty_cells [OF assms(1) this] assms(2) have S: "S = empty_collection (Some [])"
      by (auto simp: empty_collection_def)
    show ?thesis
      unfolding S CellCollection_sub_def
      by (simp add: empty_collection_def tuple_order_Nil [OF assms(3)] CellCollection_init_def)
  next
    case False
    with shape have "S = collection_of A" by simp
    with sub_self_collection [OF assms(3) ok anti] show ?thesis by simp
  qed
  then show ?thesis
    by (simp add: CellCollection_len_def empty_collection_repr) (simp add: empty_collection_def)
qed

theorem self_difference_empty_witness:
  "built (collection_of [[Label ''P'', Num 1]]) \<and>
   CellCollection_new plain_order (SuidString ''P1'') = Inr (collection_of [[Label ''P'', Num 1]]) \<and>
   cells (collection_of [[Label ''P'', Num 1]]) \<noteq> None \<and> valid_order plain_order \<and>
   CellCollection_sub (Suc 0) plain_order (collection_of [[Label ''P'', Num 1]])
     (ACollection (collection_of [[Label ''P'', Num 1]])) True =
     Some (Inr (empty_collection (Some []))) \<and>
   CellCollection_len (empty_collection (Some [])) = 0 \<and>
   CellCollection_repr (empty_collection (Some [])) = ''Empty CellCollection''"
proof -
  let ?S = "collection_of [[Label ''P'', Num 1]]"
  have i: "CellCollection_init plain_order (SuidString ''P1'') None None True = Inr ?S"
    by code_simp
  have b: "built ?S" unfolding built_def
    by (intro exI [of _ plain_order] exI [of _ "SuidString ''P1''"] exI [of _ None] exI [of _ True])
       (simp add: valid_plain_order i)
  have c: "cells ?S \<noteq> None" by (simp add: collection_of_def)
  from self_difference_empty [OF b c valid_plain_order, of 0 True] b c i valid_plain_order
  show ?thesis by (simp add: CellCollection_new_def)
qed

subsection \<open>Two evaluations of a difference\<close>

lemma for_each_det:
  assumes "\<And>x s r r'. x \<in> set xs \<Longrightarrow> f x s = Some r \<Longrightarrow> g x s = Some r' \<Longrightarrow> r = r'"
    and "for_each f xs s = Some r" and "for_each g xs s = Some r'"
  shows "r = r'"
  using assms
proof (induction xs arbitrary: s)
  case Nil
  then show ?case by simp
next
  case (Cons x xs)
  from Cons.prems(2) obtain y where y: "f x s = Some y" by (cases "f x s") auto
  from Cons.prems(3) obtain y' where y': "g x s = Some y'" by (cases "g x s") auto
  have same: "y = y'" by (rule Cons.prems(1) [OF _ y y']) simp
  show ?case
  proof (cases y)
    case (Inl e)
    have "for_each f (x # xs) s = Some (Inl e)" using y Inl by simp
    moreover have "g x s = Some (Inl e)" using y' same Inl by (simp only:)
    then have "for_each g (x # xs) s = Some (Inl e)" by simp
    ultimately show ?thesis using Cons.prems(2,3) by simp
  next
    case (Inr s1)
    with Cons.prems(2) y have 1: "for_each f xs s1 = Some r" by simp
    from Inr Cons.prems(3) y' same have 2: "for_each g xs s1 = Some r'" by simp
    show ?thesis
      by (rule Cons.IH [OF _ 1 2]) (rule Cons.prems(1), simp_all)
  qed
qed

lemma children_valid_cell:
  assumes "valid_cell c" "valid_order so" "length (suids c) < 4300"
  shows "Cell_children so c None =
     Inr (ACollection (collection_of (map (\<lambda>j. suids c @ [Num j]) [0, 1, 2, 3, 4, 5, 6, 7, 8])))"
  using children_collection [OF valid_cell_ok [OF assms(1)] assms(2,3)] valid_cell_eq [OF assms(1)]
  by simp

lemma children_deep_cell:
  assumes "valid_cell c" "valid_order so" "\<not> length (suids c) < 4300"
  shows "Cell_children so c None = Inl ValueError"
proof -
  from assms(3) have "4300 \<le> length (suids c)" by simp
  from children_too_deep [OF valid_cell_ok [OF assms(1)] assms(2) this] valid_cell_eq [OF assms(1)]
  show ?thesis by simp
qed

lemma kids_valid_cells:
  assumes "valid_cell c"
  shows "list_all valid_cell (map cell_of (map (\<lambda>j. suids c @ [Num j]) [0, 1, 2, 3, 4, 5, 6, 7, 8]))"
  using kids_props(1) [OF valid_cell_ok [OF assms]]
  by (simp add: list_all_iff cell_of_valid)

lemma intersect_pair_det:
  assumes so: "valid_order so" and so': "valid_order so'" and c1: "valid_cell c1"
    and ih: "\<And>ones twos acc r r'. list_all valid_cell ones \<Longrightarrow>
               recurse ones twos acc = Some r \<Longrightarrow> recurse' ones twos acc = Some r' \<Longrightarrow> r = r'"
    and 1: "intersect_pair recurse so c1 c2 acc = Some r"
    and 2: "intersect_pair recurse' so' c1 c2 acc = Some r'"
  shows "r = r'"
proof (cases "Cell_overlaps c1 c2 \<and> \<not> resolution c1 \<ge> resolution c2")
  case True
  let ?kids = "map cell_of (map (\<lambda>j. suids c1 @ [Num j]) [0, 1, 2, 3, 4, 5, 6, 7, 8])"
  show ?thesis
  proof (cases "length (suids c1) < 4300")
    case len: True
    have a: "recurse ?kids [c2] acc = Some r"
      using 1 True by (simp add: intersect_pair_def children_valid_cell [OF c1 so len] collection_of_def)
    have b: "recurse' ?kids [c2] acc = Some r'"
      using 2 True by (simp add: intersect_pair_def children_valid_cell [OF c1 so' len] collection_of_def)
    show ?thesis by (rule ih [OF kids_valid_cells [OF c1] a b])
  next
    case len: False
    have "r = Inl ValueError"
      using 1 True by (simp add: intersect_pair_def children_deep_cell [OF c1 so len])
    moreover have "r' = Inl ValueError"
      using 2 True by (simp add: intersect_pair_def children_deep_cell [OF c1 so' len])
    ultimately show ?thesis by simp
  qed
next
  case False
  with 1 2 show ?thesis by (auto simp: intersect_pair_def split: if_splits)
qed

lemma progressively_intersect_det:
  assumes so: "valid_order so" and so': "valid_order so'"
  shows "list_all valid_cell ones \<Longrightarrow>
     progressively_intersect n so ones twos acc = Some r \<Longrightarrow>
     progressively_intersect n' so' ones twos acc = Some r' \<Longrightarrow> r = r'"
proof (induction n arbitrary: n' ones twos acc r r')
  case 0
  then show ?case by simp
next
  case (Suc n)
  from Suc.prems(3) obtain m where n': "n' = Suc m" by (cases n') auto
  let ?F = "\<lambda>cell_one. for_each (\<lambda>cell_two.
              intersect_pair (progressively_intersect n so) so cell_one cell_two) twos"
  let ?G = "\<lambda>cell_one. for_each (\<lambda>cell_two.
              intersect_pair (progressively_intersect m so') so' cell_one cell_two) twos"
  have 1: "for_each ?F ones acc = Some r" using Suc.prems(2) by simp
  have 2: "for_each ?G ones acc = Some r'" using Suc.prems(3) n' by simp
  show ?case
  proof (rule for_each_det [OF _ 1 2])
    fix c1 s x x'
    assume c1: "c1 \<in> set ones" and f: "?F c1 s = Some x" and g: "?G c1 s = Some x'"
    from c1 Suc.prems(1) have vc: "valid_cell c1" by (simp add: list_all_iff)
    show "x = x'"
    proof (rule for_each_det [OF _ f g])
      fix c2 s2 y y'
      assume "intersect_pair (progressively_intersect n so) so c1 c2 s2 = Some y"
        and "intersect_pair (progressively_intersect m so') so' c1 c2 s2 = Some y'"
      then show "y = y'"
        by (rule intersect_pair_det [OF so so' vc Suc.IH, rotated -2])
    qed
  qed
qed

lemma Cell_new_tuple_Inr:
  assumes "Cell_new (FromTuple t) = Inr c"
  shows "suid_ok t \<and> c = cell_of t"
proof -
  from assms have v: "rhealpix_validator [''N'', ''O'', ''P'', ''Q'', ''R'', ''S''] 3 t = Inr ()"
    by (auto simp: Cell_new_def Cell_init_def param_auspix split: sum.splits)
  with assms show ?thesis
    by (simp add: Cell_new_def Cell_init_def param_auspix suid_ok_def cell_of_def)
qed

lemma emap_tuple_cells:
  assumes "emap (\<lambda>t. Cell_new (FromTuple t)) ts = Inr cs"
  shows "(\<forall>t \<in> set ts. suid_ok t) \<and> cs = map cell_of ts"
proof -
  from emap_Inr_all [OF assms] have "list_all2 (\<lambda>t c. Cell_new (FromTuple t) = Inr c) ts cs" .
  then show ?thesis
    by (induction rule: list_all2_induct) (auto dest: Cell_new_tuple_Inr)
qed

lemma built_cells_valid:
  assumes "built S" "cells S = Some cs"
  shows "list_all valid_cell cs"
proof -
  from built_tuples [OF assms(1)] obtain A where ok: "\<forall>t \<in> set A. suid_ok t"
    and shape: "if A = [] then \<exists>e. S = empty_collection e else S = collection_of A"
    and A: "cc_suids S = map Cell_repr A" by blast
  show ?thesis
  proof (cases "A = []")
    case True
    with A have "cc_suids S = []" by simp
    from built_empty_cells [OF assms(1) this] assms(2) show ?thesis
      by (auto simp: empty_collection_def)
  next
    case False
    with shape assms(2) have "cs = map cell_of A" by (simp add: collection_of_def)
    with ok show ?thesis by (simp add: list_all_iff cell_of_valid)
  qed
qed

lemma built_cells_sortable:
  assumes "built S" "cells S = Some cs"
  shows "list_all sortable_cell cs"
proof -
  from built_tuples [OF assms(1)] obtain A where ok: "\<forall>t \<in> set A. suid_ok t"
    and sh: "\<forall>t \<in> set A. length t \<le> 4300"
    and shape: "if A = [] then \<exists>e. S = empty_collection e else S = collection_of A"
    and A: "cc_suids S = map Cell_repr A" by blast
  show ?thesis
  proof (cases "A = []")
    case True
    with A have "cc_suids S = []" by simp
    from built_empty_cells [OF assms(1) this] assms(2) show ?thesis
      by (auto simp: empty_collection_def)
  next
    case False
    with shape assms(2) have "cs = map cell_of A" by (simp add: collection_of_def)
    with ok sh show ?thesis by (simp add: list_all_iff sortable_cell_def cell_of_valid)
  qed
qed

lemma sub_Inr:
  assumes "CellCollection_sub n so S (ACollection T) z = Some (Inr R)"
  shows "\<exists>cs acc ts.
     cells S = Some cs \<and>
     (cs = [] \<and> acc = \<lparr>cells_to_retain = [], cells_to_remove = []\<rparr> \<or>
      cs \<noteq> [] \<and> (\<exists>twos. cells T = Some twos \<and>
         progressively_intersect n so cs twos \<lparr>cells_to_retain = [], cells_to_remove = []\<rparr> =
           Some (Inr acc))) \<and>
     emap (\<lambda>cell. Cell_new (FromTuple cell))
       (tuple_order so (filter (\<lambda>t. t \<notin> set (cells_to_remove acc)) (cells_to_retain acc))) = Inr ts \<and>
     CellCollection_init so (CellList ts) None None z = Inr R"
  using assms unfolding CellCollection_sub_def Let_def
  by (auto split: option.splits list.splits sum.splits)

lemma init_CellList:
  assumes so: "valid_order so" and ok: "\<forall>t \<in> set ts. sortable t" and d: "distinct ts"
  shows "CellCollection_init so (CellList (map cell_of ts)) None None z =
     Inr (if ts = [] then empty_collection (Some [])
          else collection_of (sort_key sort_value (pipeline so z ts)))"
proof (cases "ts = []")
  case True
  then show ?thesis by (simp add: CellCollection_init_def)
next
  case False
  have ok': "\<forall>t \<in> set ts. suid_ok t" using ok by (simp add: sortable_def)
  have pok: "\<forall>t \<in> set (pipeline so z ts). sortable t"
    by (rule pipeline_distinct_sortable [OF so ok d])
  have pne: "pipeline so z ts \<noteq> []" by (rule pipeline_nonempty [OF so False])
  from init_cells [OF standardise_CellList [OF False] pok pne or_else_None or_else_None ok' False]
  show ?thesis using False by simp
qed

lemma init_CellList_Inr:
  assumes so: "valid_order so" and ok: "\<forall>t \<in> set ts. suid_ok t"
    and i: "CellCollection_init so (CellList (map cell_of ts)) None None z = Inr R"
  shows "R = (if ts = [] then empty_collection (Some [])
              else collection_of (sort_key sort_value (pipeline so z ts)))"
proof (cases "ts = []")
  case True
  with i show ?thesis by (simp add: CellCollection_init_def)
next
  case False
  have va: "valid_arg (CellList (map cell_of ts))" using ok by (simp add: list_all_iff cell_of_valid)
  from init_Inr [OF i va so standardise_CellList(2) [OF False]] obtain us where
    us: "standardise_input (CellList (map cell_of ts)) = Inr (map cell_of us)"
    and R: "R = collection_of (sort_key sort_value (pipeline so z us))" by blast
  from us have "map cell_of us = map cell_of ts" unfolding standardise_CellList(1) [OF False] by simp
  moreover have "inj cell_of" by (rule injI) (simp add: cell_of_inj)
  ultimately have "us = ts" by (simp add: inj_map_eq_map)
  with R False show ?thesis by simp
qed


text \<open>
  Claim C10 says that two evaluations of \<open>S - T\<close> return identical suid sequences,
  because the constructor sorts the suids. The sort key is the integer value of the
  digit string, which is 1 for \<^verbatim>\<open>N1\<close> and for \<^verbatim>\<open>N01\<close>; the sort is stable, so the
  two keep the order in which \<^verbatim>\<open>list(set(...))\<close> listed them. With \<open>S\<close> holding
  \<^verbatim>\<open>N1\<close> and \<^verbatim>\<open>N01\<close> and \<open>T\<close> holding \<^verbatim>\<open>P\<close>, two valid enumerations of the
  same sets give two different sequences.
\<close>

theorem difference_depends_on_set_order:
  "valid_order plain_order \<and> valid_order longest_first \<and>
   CellCollection_new plain_order (SuidList [''N1'', ''N01'']) =
     Inr (collection_of [[Label ''N'', Num 1], [Label ''N'', Num 0, Num 1]]) \<and>
   CellCollection_new plain_order (SuidString ''P'') = Inr (collection_of [[Label ''P'']]) \<and>
   map_option (map_sum id cc_suids)
     (CellCollection_sub 1 plain_order
        (collection_of [[Label ''N'', Num 1], [Label ''N'', Num 0, Num 1]])
        (ACollection (collection_of [[Label ''P'']])) True) = Some (Inr [''N1'', ''N01'']) \<and>
   map_option (map_sum id cc_suids)
     (CellCollection_sub 1 longest_first
        (collection_of [[Label ''N'', Num 1], [Label ''N'', Num 0, Num 1]])
        (ACollection (collection_of [[Label ''P'']])) True) = Some (Inr [''N01'', ''N1''])"
proof -
  have 1: "CellCollection_new plain_order (SuidList [''N1'', ''N01'']) =
     Inr (collection_of [[Label ''N'', Num 1], [Label ''N'', Num 0, Num 1]])"
    by code_simp
  have 2: "CellCollection_new plain_order (SuidString ''P'') = Inr (collection_of [[Label ''P'']])"
    by code_simp
  have 3: "map_option (map_sum id cc_suids)
     (CellCollection_sub 1 plain_order
        (collection_of [[Label ''N'', Num 1], [Label ''N'', Num 0, Num 1]])
        (ACollection (collection_of [[Label ''P'']])) True) = Some (Inr [''N1'', ''N01''])"
    by code_simp
  have 4: "map_option (map_sum id cc_suids)
     (CellCollection_sub 1 longest_first
        (collection_of [[Label ''N'', Num 1], [Label ''N'', Num 0, Num 1]])
        (ACollection (collection_of [[Label ''P'']])) True) = Some (Inr [''N01'', ''N1''])"
    by code_simp
  from valid_plain_order valid_longest_first 1 2 3 4 show ?thesis by (intro conjI)
qed

text \<open>
  Claim C10, amended. For every two CellCollections \<open>S\<close> and \<open>T\<close>, any two
  evaluations of \<open>S - T\<close> that return a collection, under any two valid enumerations
  of sets and any two depths of recursion, return collections with the same set of
  suids, and the same collection when no two suids of the result have the same integer
  sort value.
\<close>

theorem difference_deterministic:
  assumes "built S" and "built T" and "valid_order so" and "valid_order so'"
    and "CellCollection_sub n so S (ACollection T) z = Some (Inr R)"
    and "CellCollection_sub n' so' S (ACollection T) z = Some (Inr R')"
  shows "set (cc_suids R) = set (cc_suids R') \<and>
         (distinct_sort_values (cc_suids R) \<longrightarrow> cc_suids R = cc_suids R' \<and> R = R')"
proof -
  let ?acc0 = "\<lparr>cells_to_retain = [], cells_to_remove = []\<rparr>"
  note so = assms(3) and so' = assms(4)
  from sub_Inr [OF assms(5)] obtain cs acc ts where
    c: "cells S = Some cs" and
    p: "cs = [] \<and> acc = ?acc0 \<or>
        cs \<noteq> [] \<and> (\<exists>twos. cells T = Some twos \<and>
           progressively_intersect n so cs twos ?acc0 = Some (Inr acc))" and
    e: "emap (\<lambda>cell. Cell_new (FromTuple cell))
          (tuple_order so (filter (\<lambda>t. t \<notin> set (cells_to_remove acc)) (cells_to_retain acc))) = Inr ts" and
    i: "CellCollection_init so (CellList ts) None None z = Inr R" by blast
  from sub_Inr [OF assms(6)] obtain cs' acc' ts' where
    c': "cells S = Some cs'" and
    p': "cs' = [] \<and> acc' = ?acc0 \<or>
        cs' \<noteq> [] \<and> (\<exists>twos. cells T = Some twos \<and>
           progressively_intersect n' so' cs' twos ?acc0 = Some (Inr acc'))" and
    e': "emap (\<lambda>cell. Cell_new (FromTuple cell))
          (tuple_order so' (filter (\<lambda>t. t \<notin> set (cells_to_remove acc')) (cells_to_retain acc'))) = Inr ts'" and
    i': "CellCollection_init so' (CellList ts') None None z = Inr R'" by blast
  from c c' have cc: "cs' = cs" by simp
  have vc: "list_all valid_cell cs" by (rule built_cells_valid [OF assms(1) c])
  have acc: "acc' = acc"
  proof (cases "cs = []")
    case True
    with p p' cc show ?thesis by simp
  next
    case False
    with p obtain twos where t: "cells T = Some twos"
      "progressively_intersect n so cs twos ?acc0 = Some (Inr acc)" by blast
    from False p' cc obtain twos' where t': "cells T = Some twos'"
      "progressively_intersect n' so' cs twos' ?acc0 = Some (Inr acc')" by blast
    from t(1) t'(1) have "twos' = twos" by simp
    with t'(2) have "progressively_intersect n' so' cs twos ?acc0 = Some (Inr acc')" by simp
    from progressively_intersect_det [OF so so' vc t(2) this] show ?thesis by simp
  qed
  let ?X = "filter (\<lambda>t. t \<notin> set (cells_to_remove acc)) (cells_to_retain acc)"
  let ?L = "tuple_order so ?X"
  let ?L' = "tuple_order so' ?X"
  from emap_tuple_cells [OF e] have okL: "\<forall>t \<in> set ?L. suid_ok t" and ts: "ts = map cell_of ?L"
    by simp_all
  from emap_tuple_cells [OF e' [unfolded acc]] have okL': "\<forall>t \<in> set ?L'. suid_ok t"
    and ts': "ts' = map cell_of ?L'" by simp_all
  have dL: "distinct ?L" and dL': "distinct ?L'"
    by (simp_all add: tuple_order_distinct so so')
  have same: "set ?L = set ?L'" by (simp add: tuple_order_set so so')
  have R: "R = (if ?L = [] then empty_collection (Some [])
                else collection_of (sort_key sort_value (pipeline so z ?L)))"
    using init_CellList_Inr [OF so okL i [unfolded ts]] .
  have R': "R' = (if ?L' = [] then empty_collection (Some [])
                else collection_of (sort_key sort_value (pipeline so' z ?L')))"
    using init_CellList_Inr [OF so' okL' i' [unfolded ts']] .
  show ?thesis
  proof (cases "?L = []")
    case True
    with same have "?L' = []" by simp
    with True R R' show ?thesis by simp
  next
    case False
    with same have ne': "?L' \<noteq> []" by auto
    let ?P = "sort_key sort_value (pipeline so z ?L)"
    let ?P' = "sort_key sort_value (pipeline so' z ?L')"
    from R False have RP: "R = collection_of ?P" by simp
    from R' ne' have RP': "R' = collection_of ?P'" by simp
    note ci = canon_indep [OF so so' dL dL' same, of z]
    have pok: "\<forall>t \<in> set ?P. suid_ok t"
      using pipeline_distinct_ok [OF so okL dL, of z] by simp
    have sets: "set (cc_suids R) = set (cc_suids R')"
      unfolding RP RP' using ci(1) by (simp add: collection_of_def)
    have eq: "distinct_sort_values (cc_suids R) \<longrightarrow> cc_suids R = cc_suids R' \<and> R = R'"
    proof
      assume "distinct_sort_values (cc_suids R)"
      then have "distinct_sort_values (map Cell_repr ?P)" unfolding RP by (simp add: collection_of_def)
      then have "distinct (map sort_value ?P)" unfolding distinct_sort_values_repr [OF pok] .
      from ci(2) [OF this] show "cc_suids R = cc_suids R' \<and> R = R'" unfolding RP RP' by simp
    qed
    from sets eq show ?thesis by simp
  qed
qed

theorem difference_deterministic_witness:
  "built (collection_of [[Label ''P'']]) \<and> built (collection_of [[Label ''P'', Num 1, Num 1]]) \<and>
   valid_order plain_order \<and> valid_order longest_first \<and>
   (\<exists>R R'. CellCollection_sub 3 plain_order (collection_of [[Label ''P'']])
              (ACollection (collection_of [[Label ''P'', Num 1, Num 1]])) True = Some (Inr R) \<and>
           CellCollection_sub 4 longest_first (collection_of [[Label ''P'']])
              (ACollection (collection_of [[Label ''P'', Num 1, Num 1]])) True = Some (Inr R') \<and>
           cc_suids R = [''P0'', ''P2'', ''P3'', ''P4'', ''P5'', ''P6'', ''P7'', ''P8'',
                         ''P10'', ''P12'', ''P13'', ''P14'', ''P15'', ''P16'', ''P17'', ''P18''] \<and>
           set (cc_suids R) = set (cc_suids R') \<and>
           distinct_sort_values (cc_suids R) \<and> cc_suids R = cc_suids R' \<and> R = R')"
proof -
  let ?S = "collection_of [[Label ''P'']]"
  let ?T = "collection_of [[Label ''P'', Num 1, Num 1]]"
  let ?R = "collection_of
       [[Label ''P'', Num 0], [Label ''P'', Num 2], [Label ''P'', Num 3], [Label ''P'', Num
        4], [Label ''P'', Num 5], [Label ''P'', Num 6], [Label ''P'', Num 7], [Label ''P'',
        Num 8], [Label ''P'', Num 1, Num 0], [Label ''P'', Num 1, Num 2], [Label ''P'', Num
        1, Num 3], [Label ''P'', Num 1, Num 4], [Label ''P'', Num 1, Num 5], [Label ''P'',
        Num 1, Num 6], [Label ''P'', Num 1, Num 7], [Label ''P'', Num 1, Num 8]]"
  have iS: "CellCollection_init plain_order (SuidString ''P'') None None True = Inr ?S"
    by code_simp
  have iT: "CellCollection_init plain_order (SuidString ''P11'') None None True = Inr ?T"
    by code_simp
  have bS: "built ?S" unfolding built_def
    by (intro exI [of _ plain_order] exI [of _ "SuidString ''P''"] exI [of _ None] exI [of _ True])
       (simp add: valid_plain_order iS)
  have bT: "built ?T" unfolding built_def
    by (intro exI [of _ plain_order] exI [of _ "SuidString ''P11''"] exI [of _ None] exI [of _ True])
       (simp add: valid_plain_order iT)
  have 1: "CellCollection_sub 3 plain_order ?S (ACollection ?T) True = Some (Inr ?R)"
    by code_simp
  have 2: "CellCollection_sub 4 longest_first ?S (ACollection ?T) True = Some (Inr ?R)"
    by code_simp
  have 3: "cc_suids ?R = [''P0'', ''P2'', ''P3'', ''P4'', ''P5'', ''P6'', ''P7'', ''P8'',
                         ''P10'', ''P12'', ''P13'', ''P14'', ''P15'', ''P16'', ''P17'', ''P18'']"
    by code_simp
  have 4: "distinct_sort_values (cc_suids ?R)" by code_simp
  from difference_deterministic [OF bS bT valid_plain_order valid_longest_first 1 2] 4
  have 5: "set (cc_suids ?R) = set (cc_suids ?R) \<and> cc_suids ?R = cc_suids ?R \<and> ?R = ?R" by blast
  from bS bT valid_plain_order valid_longest_first 1 2 3 4 5 show ?thesis by blast
qed

subsection \<open>The difference returns\<close>

lemma for_each_total:
  assumes "\<And>x s. x \<in> set xs \<Longrightarrow> I s \<Longrightarrow> \<exists>s'. f x s = Some (Inr s') \<and> I s'"
    and "I s"
  shows "\<exists>s'. for_each f xs s = Some (Inr s') \<and> I s'"
  using assms
proof (induction xs arbitrary: s)
  case Nil
  then show ?case by simp
next
  case (Cons x xs)
  from Cons.prems(1) [of x s] Cons.prems(2) obtain s1 where s1: "f x s = Some (Inr s1)" "I s1"
    by auto
  have "\<exists>s'. for_each f xs s1 = Some (Inr s') \<and> I s'"
    by (rule Cons.IH [OF _ s1(2)]) (rule Cons.prems(1), simp_all)
  with s1(1) show ?case by simp
qed

lemma valid_cell_resolution: "valid_cell c \<Longrightarrow> resolution c = int (length (suids c)) - 1"
  using valid_cell_eq [of c] resolution_cell_of [of "suids c"] by simp

lemma intersect_pair_total:
  assumes so: "valid_order so" and s1: "sortable_cell c1" and s2: "sortable_cell c2"
    and ih: "\<And>ones acc. 0 < n \<Longrightarrow> list_all sortable_cell ones \<Longrightarrow>
               (\<forall>c \<in> set ones. resolution c2 - resolution c < int n) \<Longrightarrow> acc_ok acc \<Longrightarrow>
               \<exists>acc'. recurse ones [c2] acc = Some (Inr acc') \<and> acc_ok acc'"
    and b: "resolution c2 - resolution c1 < int (Suc n)" and a: "acc_ok acc"
  shows "\<exists>acc'. intersect_pair recurse so c1 c2 acc = Some (Inr acc') \<and> acc_ok acc'"
proof (cases "Cell_overlaps c1 c2 \<and> \<not> resolution c1 \<ge> resolution c2")
  case True
  let ?ks = "map (\<lambda>j. suids c1 @ [Num j]) [0, 1, 2, 3, 4, 5, 6, 7, 8]"
  from s1 have c1: "valid_cell c1" by (simp add: sortable_cell_def)
  from s2 have c2: "valid_cell c2" and l2: "length (suids c2) \<le> 4300" by (simp_all add: sortable_cell_def)
  from True valid_cell_resolution [OF c1] valid_cell_resolution [OF c2] l2
  have len: "length (suids c1) < 4300" by simp
  have sk: "list_all sortable_cell (map cell_of ?ks)"
    using kids_valid_cells [OF c1] len by (simp add: list_all_iff sortable_cell_def)
  from True b have pos: "0 < n" by simp
  have r: "\<forall>c \<in> set (map cell_of ?ks). resolution c2 - resolution c < int n"
  proof
    fix c assume "c \<in> set (map cell_of ?ks)"
    then have "resolution c = int (length (suids c1))" by auto
    with valid_cell_resolution [OF c1] b show "resolution c2 - resolution c < int n" by simp
  qed
  from ih [OF pos sk r a] obtain acc' where
    "recurse (map cell_of ?ks) [c2] acc = Some (Inr acc')" "acc_ok acc'" by blast
  with True show ?thesis
    by (simp add: intersect_pair_def children_valid_cell [OF c1 so len] collection_of_def)
next
  case False
  have "sortable (suids c1)" using s1 by (simp add: sortable_cell_def sortable_def valid_cell_ok)
  with False a show ?thesis by (auto simp: intersect_pair_def acc_ok_def)
qed

lemma progressively_intersect_total:
  assumes so: "valid_order so"
  shows "0 < n \<Longrightarrow> list_all sortable_cell ones \<Longrightarrow>
     (\<forall>c1 \<in> set ones. \<forall>c2 \<in> set twos. resolution c2 - resolution c1 < int n) \<Longrightarrow>
     acc_ok acc \<Longrightarrow> list_all sortable_cell twos \<Longrightarrow>
     \<exists>acc'. progressively_intersect n so ones twos acc = Some (Inr acc') \<and> acc_ok acc'"
proof (induction n arbitrary: ones twos acc)
  case 0
  then show ?case by simp
next
  case (Suc n)
  let ?body = "\<lambda>cell_one. for_each (\<lambda>cell_two.
      intersect_pair (progressively_intersect n so) so cell_one cell_two) twos"
  have "\<exists>acc'. for_each ?body ones acc = Some (Inr acc') \<and> acc_ok acc'"
  proof (rule for_each_total [where I = acc_ok, OF _ Suc.prems(4)])
    fix c1 s assume c1: "c1 \<in> set ones" and s: "acc_ok s"
    from c1 Suc.prems(2) have vc: "sortable_cell c1" by (simp add: list_all_iff)
    show "\<exists>s'. ?body c1 s = Some (Inr s') \<and> acc_ok s'"
    proof (rule for_each_total [where I = acc_ok, OF _ s])
      fix c2 s2 assume c2: "c2 \<in> set twos" and s2: "acc_ok s2"
      from c2 Suc.prems(5) have vc2: "sortable_cell c2" by (simp add: list_all_iff)
      have b: "resolution c2 - resolution c1 < int (Suc n)" using Suc.prems(3) c1 c2 by blast
      show "\<exists>s'. intersect_pair (progressively_intersect n so) so c1 c2 s2 = Some (Inr s') \<and> acc_ok s'"
      proof (rule intersect_pair_total [OF so vc vc2 _ b s2])
        fix ones' acc0
        assume "0 < n" "list_all sortable_cell ones'"
          "\<forall>c \<in> set ones'. resolution c2 - resolution c < int n" "acc_ok acc0"
        then show "\<exists>acc'. progressively_intersect n so ones' [c2] acc0 = Some (Inr acc') \<and> acc_ok acc'"
          using vc2 by (intro Suc.IH) simp_all
      qed
    qed
  qed
  then show ?case by simp
qed

lemma sub_forward:
  assumes "cells S = Some cs"
    and "cs = [] \<and> acc = \<lparr>cells_to_retain = [], cells_to_remove = []\<rparr> \<or>
         cs \<noteq> [] \<and> cells T = Some twos \<and>
         progressively_intersect n so cs twos \<lparr>cells_to_retain = [], cells_to_remove = []\<rparr> =
           Some (Inr acc)"
    and "emap (\<lambda>cell. Cell_new (FromTuple cell))
           (tuple_order so (filter (\<lambda>t. t \<notin> set (cells_to_remove acc)) (cells_to_retain acc))) = Inr ts"
  shows "CellCollection_sub n so S (ACollection T) z =
     Some (CellCollection_init so (CellList ts) None None z)"
proof (cases cs)
  case Nil
  with assms show ?thesis by (simp add: CellCollection_sub_def)
next
  case (Cons c cs')
  with assms show ?thesis by (simp add: CellCollection_sub_def)
qed

text \<open>
  For every two CellCollections \<open>S\<close> and \<open>T\<close> whose cells are lists, \<open>S - T\<close>
  returns a CellCollection, without raising, as soon as the depth allowed to the
  recursion exceeds every difference between the resolution of a cell of \<open>T\<close> and the
  resolution of a cell of \<open>S\<close>.
\<close>

theorem difference_returns:
  assumes "built S" and "built T" and "valid_order so"
    and "cells S = Some cs" and "cells T = Some twos"
    and "\<forall>c1 \<in> set cs. \<forall>c2 \<in> set twos. resolution c2 - resolution c1 < int n" and "0 < n"
  shows "\<exists>R. CellCollection_sub n so S (ACollection T) z = Some (Inr R) \<and> built R"
proof -
  let ?acc0 = "\<lparr>cells_to_retain = [], cells_to_remove = []\<rparr>"
  note so = assms(3)
  have vc: "list_all sortable_cell cs" by (rule built_cells_sortable [OF assms(1,4)])
  have vt: "list_all sortable_cell twos" by (rule built_cells_sortable [OF assms(2,5)])
  have a0: "acc_ok ?acc0" by (simp add: acc_ok_def)
  from progressively_intersect_total [OF so assms(7) vc assms(6) a0 vt] obtain acc1 where
    acc1: "progressively_intersect n so cs twos ?acc0 = Some (Inr acc1)" "acc_ok acc1" by blast
  define acc where "acc = (if cs = [] then ?acc0 else acc1)"
  have ok: "acc_ok acc" using a0 acc1(2) by (simp add: acc_def)
  have p: "cs = [] \<and> acc = ?acc0 \<or>
      cs \<noteq> [] \<and> cells T = Some twos \<and> progressively_intersect n so cs twos ?acc0 = Some (Inr acc)"
    using acc1(1) assms(5) by (simp add: acc_def)
  let ?L = "tuple_order so (filter (\<lambda>t. t \<notin> set (cells_to_remove acc)) (cells_to_retain acc))"
  have soL: "\<forall>t \<in> set ?L. sortable t" using ok by (auto simp: acc_ok_def tuple_order_set [OF so])
  then have okL: "\<forall>t \<in> set ?L. suid_ok t" by (simp add: sortable_def)
  have dL: "distinct ?L" by (rule tuple_order_distinct [OF so])
  have e: "emap (\<lambda>cell. Cell_new (FromTuple cell)) ?L = Inr (map cell_of ?L)"
    by (rule emap_Inr) (use okL in \<open>simp add: Cell_new_tuple_ok\<close>)
  define R where "R = (if ?L = [] then empty_collection (Some [])
      else collection_of (sort_key sort_value (pipeline so z ?L)))"
  have i: "CellCollection_init so (CellList (map cell_of ?L)) None None z = Inr R"
    unfolding R_def by (rule init_CellList [OF so soL dL])
  have "valid_arg (CellList (map cell_of ?L))" using okL by (simp add: list_all_iff cell_of_valid)
  with so i have "built R" unfolding built_def by blast
  moreover have "CellCollection_sub n so S (ACollection T) z = Some (Inr R)"
    using sub_forward [OF assms(4) p e, of z] i by simp
  ultimately show ?thesis by blast
qed

theorem difference_returns_witness:
  "built (collection_of [[Label ''P'']]) \<and> built (collection_of [[Label ''P'', Num 1, Num 1]]) \<and>
   valid_order plain_order \<and>
   cells (collection_of [[Label ''P'']]) = Some [cell_of [Label ''P'']] \<and>
   cells (collection_of [[Label ''P'', Num 1, Num 1]]) = Some [cell_of [Label ''P'', Num 1, Num 1]] \<and>
   resolution (cell_of [Label ''P'', Num 1, Num 1]) - resolution (cell_of [Label ''P'']) < int 3 \<and>
   (0::nat) < 3 \<and>
   (\<exists>R. CellCollection_sub 3 plain_order (collection_of [[Label ''P'']])
           (ACollection (collection_of [[Label ''P'', Num 1, Num 1]])) True = Some (Inr R) \<and>
        built R)"
proof -
  let ?S = "collection_of [[Label ''P'']]"
  let ?T = "collection_of [[Label ''P'', Num 1, Num 1]]"
  have iS: "CellCollection_init plain_order (SuidString ''P'') None None True = Inr ?S"
    by code_simp
  have iT: "CellCollection_init plain_order (SuidString ''P11'') None None True = Inr ?T"
    by code_simp
  have bS: "built ?S" unfolding built_def
    by (intro exI [of _ plain_order] exI [of _ "SuidString ''P''"] exI [of _ None] exI [of _ True])
       (simp add: valid_plain_order iS)
  have bT: "built ?T" unfolding built_def
    by (intro exI [of _ plain_order] exI [of _ "SuidString ''P11''"] exI [of _ None] exI [of _ True])
       (simp add: valid_plain_order iT)
  have cS: "cells ?S = Some [cell_of [Label ''P'']]" by (simp add: collection_of_def)
  have cT: "cells ?T = Some [cell_of [Label ''P'', Num 1, Num 1]]" by (simp add: collection_of_def)
  have b: "\<forall>c1 \<in> set [cell_of [Label ''P'']]. \<forall>c2 \<in> set [cell_of [Label ''P'', Num 1, Num 1]].
      resolution c2 - resolution c1 < int 3" by simp
  have pos: "(0::nat) < 3" by simp
  from difference_returns [OF bS bT valid_plain_order cS cT b pos, of True] bS bT valid_plain_order cS cT
  show ?thesis by simp
qed

subsection \<open>Neighbours of a collection below its maximum resolution\<close>

text \<open>
  For every CellCollection with a maximum resolution, \<^verbatim>\<open>neighbours(resolution)\<close>
  raises a value error when \<^verbatim>\<open>resolution\<close> is below that maximum and is not 0.
\<close>

theorem neighbours_below_max_raises:
  assumes "max_resolution S = Some m" and "r < m" and "r \<noteq> 0"
  shows "CellCollection_neighbours (Suc n) so S (Some r) = Some (Inl ValueError)"
  using assms by (simp add: effective_resolution_def)

theorem neighbours_below_max_raises_witness:
  "max_resolution (collection_of [[Label ''P'', Num 1, Num 1]]) = Some 2 \<and> (1::int) < 2 \<and>
   (1::int) \<noteq> 0 \<and>
   CellCollection_neighbours (Suc 0) plain_order (collection_of [[Label ''P'', Num 1, Num 1]])
     (Some 1) = Some (Inl ValueError)"
proof -
  have m: "max_resolution (collection_of [[Label ''P'', Num 1, Num 1]]) = Some 2"
    by (simp add: collection_of_def)
  have a: "(1::int) < 2" and b: "(1::int) \<noteq> 0" by simp_all
  from neighbours_below_max_raises [OF m a b, of 0 plain_order] m show ?thesis by simp
qed

end
